theory Spec2Isabelle
  imports Main "HOL-Library.Word"
begin

section \<open>BLI::SmallVector: a shallow embedding of BLI\_small\_vector.hpp\<close>

text \<open>
  The class template \<open>SmallVector<T, N>\<close> manages raw storage by hand: an inline buffer
  inside the object, heap blocks from \<open>std::malloc\<close>, placement construction and explicit
  destructor calls. The embedding keeps all of that visible.

  \<^item> \<open>uint\<close> is a 32-bit word: \<open>m_capacity * 2\<close> and \<open>m_size - 1\<close> wrap as they do in C++.
  \<^item> A pointer is null, the inline buffer of the container object at some address, or a
    heap block. \<open>is_small\<close> is the pointer comparison of the source.
  \<^item> Containers live in a store of objects addressed by \<open>this\<close>, so that \<open>other\<close> may
    alias \<open>this\<close> exactly as a C++ reference may.
  \<^item> Storage is a list of slots; a slot is \<open>None\<close> (raw bytes) or \<open>Some v\<close> (a live
    object of type \<open>T\<close>). The inline buffer \<open>m_small_buffer\<close> of the object at address
    \<open>a\<close> is the region \<open>SmallBuf a\<close> of the store.
  \<^item> Whatever C++ leaves undefined (a null or dangling dereference, an access past the end
    of a block, a destructor call or a read on storage that holds no object) is an error
    value, as is a failed \<open>BLI_assert\<close>.
  \<^item> \<open>std::malloc\<close> is the environment: its \<open>k\<close>-th call fails exactly when the oracle
    \<open>refuse\<close> says so, and otherwise returns a block never handed out before.
  \<^item> Two counters record every element construction and destruction the container performs.
\<close>

type_synonym uint = "32 word"

datatype ptr = Null | SmallBuf nat | HeapBlk nat

datatype undefined_behaviour =
  NullDeref | UseAfterFree | OutOfBounds | DeadObject | InvalidFree

datatype error = AssertFailed | UB undefined_behaviour

text \<open>The data members \<open>m_elements\<close>, \<open>m_size\<close> and \<open>m_capacity\<close> (lines 16--18).\<close>

record SmallVector =
  m_elements :: ptr
  m_size :: uint
  m_capacity :: uint

record 'a state =
  objs :: "nat \<Rightarrow> SmallVector option"
  mem :: "ptr \<Rightarrow> 'a option list option"
  mallocs :: nat
  refuse :: "nat \<Rightarrow> bool"
  constructions :: nat
  destructions :: nat

subsection \<open>Sequencing, loops and member access\<close>

definition ebind :: "error + 'b \<Rightarrow> ('b \<Rightarrow> error + 'c) \<Rightarrow> error + 'c" where
  "ebind m f = (case m of Inl e \<Rightarrow> Inl e | Inr x \<Rightarrow> f x)"

text \<open>
  A \<open>for\<close> loop over a fixed sequence of indices or values; the first error ends it. The
  loops of the source count a \<open>uint i\<close> from 0 up to a bound that the body leaves alone,
  so \<open>i\<close> runs through \<open>[0..<unat bound]\<close> and never wraps.
\<close>

primrec foreach :: "'b list \<Rightarrow> ('b \<Rightarrow> 's \<Rightarrow> error + 's) \<Rightarrow> 's \<Rightarrow> error + 's" where
  "foreach [] f s = Inr s"
| "foreach (x # xs) f s = ebind (f x s) (foreach xs f)"

definition member :: "(SmallVector \<Rightarrow> 'b) \<Rightarrow> nat \<Rightarrow> 'a state \<Rightarrow> error + 'b" where
  "member f this st =
     (case objs st this of None \<Rightarrow> Inl (UB UseAfterFree) | Some v \<Rightarrow> Inr (f v))"

definition assign_member ::
  "(SmallVector \<Rightarrow> SmallVector) \<Rightarrow> nat \<Rightarrow> 'a state \<Rightarrow> error + 'a state" where
  "assign_member f this st =
     (case objs st this of
        None \<Rightarrow> Inl (UB UseAfterFree)
      | Some v \<Rightarrow> Inr (st\<lparr>objs := (objs st)(this \<mapsto> f v)\<rparr>))"

subsection \<open>Raw storage\<close>

definition cells :: "ptr \<Rightarrow> 'a state \<Rightarrow> error + 'a option list" where
  "cells p st =
     (case p of
        Null \<Rightarrow> Inl (UB NullDeref)
      | _ \<Rightarrow> (case mem st p of None \<Rightarrow> Inl (UB UseAfterFree) | Some cs \<Rightarrow> Inr cs))"

text \<open>Reading the object in slot \<open>i\<close> of the storage at \<open>p\<close>.\<close>

definition load :: "ptr \<Rightarrow> nat \<Rightarrow> 'a state \<Rightarrow> error + 'a" where
  "load p i st =
     ebind (cells p st) (\<lambda>cs.
       if length cs \<le> i then Inl (UB OutOfBounds)
       else (case cs ! i of None \<Rightarrow> Inl (UB DeadObject) | Some v \<Rightarrow> Inr v))"

text \<open>Placement construction \<open>::new (p + i) T(v)\<close>.\<close>

definition construct_at :: "ptr \<Rightarrow> nat \<Rightarrow> 'a \<Rightarrow> 'a state \<Rightarrow> error + 'a state" where
  "construct_at p i v st =
     ebind (cells p st) (\<lambda>cs.
       if length cs \<le> i then Inl (UB OutOfBounds)
       else Inr (st\<lparr>mem := (mem st)(p \<mapsto> cs[i := Some v]),
                    constructions := Suc (constructions st)\<rparr>))"

text \<open>The destructor call \<open>(p + i)->~T()\<close>.\<close>

definition destruct_at :: "ptr \<Rightarrow> nat \<Rightarrow> 'a state \<Rightarrow> error + 'a state" where
  "destruct_at p i st =
     ebind (cells p st) (\<lambda>cs.
       if length cs \<le> i then Inl (UB OutOfBounds)
       else (case cs ! i of
               None \<Rightarrow> Inl (UB DeadObject)
             | Some v \<Rightarrow> Inr (st\<lparr>mem := (mem st)(p \<mapsto> cs[i := None]),
                                  destructions := Suc (destructions st)\<rparr>)))"

text \<open>The assignment \<open>p[i] = v\<close> to a live object.\<close>

definition assign_at :: "ptr \<Rightarrow> nat \<Rightarrow> 'a \<Rightarrow> 'a state \<Rightarrow> error + 'a state" where
  "assign_at p i v st =
     ebind (cells p st) (\<lambda>cs.
       if length cs \<le> i then Inl (UB OutOfBounds)
       else (case cs ! i of
               None \<Rightarrow> Inl (UB DeadObject)
             | Some w \<Rightarrow> Inr (st\<lparr>mem := (mem st)(p \<mapsto> cs[i := Some v])\<rparr>)))"

text \<open>
  \<open>std::malloc\<close> for \<open>n\<close> elements: a null pointer when the oracle refuses this call,
  otherwise a fresh block of \<open>n\<close> raw slots. \<open>std::free\<close> accepts a null pointer and
  releases a heap block that is still allocated.
\<close>

definition malloc :: "nat \<Rightarrow> 'a state \<Rightarrow> ptr \<times> 'a state" where
  "malloc n st =
     (if refuse st (mallocs st) then (Null, st\<lparr>mallocs := Suc (mallocs st)\<rparr>)
      else (HeapBlk (mallocs st),
            st\<lparr>mem := (mem st)(HeapBlk (mallocs st) \<mapsto> replicate n None),
               mallocs := Suc (mallocs st)\<rparr>))"

definition free :: "ptr \<Rightarrow> 'a state \<Rightarrow> error + 'a state" where
  "free p st =
     (case p of
        Null \<Rightarrow> Inr st
      | SmallBuf a \<Rightarrow> Inl (UB InvalidFree)
      | HeapBlk b \<Rightarrow>
          (case mem st p of
             None \<Rightarrow> Inl (UB InvalidFree)
           | Some cs \<Rightarrow> Inr (st\<lparr>mem := (mem st)(p := None)\<rparr>)))"

text \<open>
  \<open>std::uninitialized_copy(first, first + n, dst)\<close>: constructs \<open>dst[k]\<close> from
  \<open>first[k]\<close> for \<open>k = 0, ..., n - 1\<close>. With move iterators the source object is moved
  from; it stays alive (it still awaits its destructor) and the model keeps its value.
\<close>

definition uninitialized_copy :: "ptr \<Rightarrow> nat \<Rightarrow> ptr \<Rightarrow> 'a state \<Rightarrow> error + 'a state" where
  "uninitialized_copy first n dst st =
     foreach [0..<n] (\<lambda>k s. ebind (load first k s) (\<lambda>v. construct_at dst k v s)) st"

text \<open>
  Modelled from the spec: \<open>BLI_assert\<close> comes from BLI\_utildefines.h, which is not part
  of the sources. The specification treats it as an assertion primitive that halts
  execution when its condition is false.
\<close>

definition BLI_assert :: "bool \<Rightarrow> 's \<Rightarrow> error + 's" where
  "BLI_assert c st = (if c then Inr st else Inl AssertFailed)"

subsection \<open>Private member functions (lines 197--302)\<close>

definition small_buffer :: "nat \<Rightarrow> ptr" where
  "small_buffer this = SmallBuf this"

definition is_small :: "nat \<Rightarrow> 'a state \<Rightarrow> error + bool" where
  "is_small this st = member (\<lambda>v. m_elements v = small_buffer this) this st"

text \<open>\<open>index >= 0\<close> is a comparison of a \<open>uint\<close>.\<close>

definition is_index_in_range :: "nat \<Rightarrow> uint \<Rightarrow> 'a state \<Rightarrow> error + bool" where
  "is_index_in_range this index st =
     member (\<lambda>v. 0 \<le> index \<and> index < m_size v) this st"

definition destruct_element :: "nat \<Rightarrow> uint \<Rightarrow> 'a state \<Rightarrow> error + 'a state" where
  "destruct_element this index st =
     ebind (member m_elements this st) (\<lambda>p. destruct_at p (unat index) st)"

definition destruct_elements_but_keep_memory :: "nat \<Rightarrow> 'a state \<Rightarrow> error + 'a state" where
  "destruct_elements_but_keep_memory this st =
     ebind (member m_size this st) (\<lambda>n.
       foreach [0..<unat n] (\<lambda>i. destruct_element this (of_nat i)) st)"

definition destruct_elements_and_free_memory :: "nat \<Rightarrow> 'a state \<Rightarrow> error + 'a state" where
  "destruct_elements_and_free_memory this st =
     ebind (destruct_elements_but_keep_memory this st) (\<lambda>st1.
     ebind (is_small this st1) (\<lambda>small.
       if \<not> small then
         ebind (member m_elements this st1) (\<lambda>p.
           if p \<noteq> Null then free p st1 else Inr st1)
       else Inr st1))"

definition grow :: "nat \<Rightarrow> uint \<Rightarrow> 'a state \<Rightarrow> error + 'a state" where
  "grow this min_capacity st =
     ebind (member m_capacity this st) (\<lambda>cap.
       if cap \<ge> min_capacity then Inr st
       else
         ebind (assign_member (\<lambda>v. v\<lparr>m_capacity := min_capacity\<rparr>) this st) (\<lambda>st1.
         ebind (member m_capacity this st1) (\<lambda>cap1.
         case malloc (unat cap1) st1 of (new_array, st2) \<Rightarrow>
         ebind (member m_elements this st2) (\<lambda>first.
         ebind (member m_size this st2) (\<lambda>n.
         ebind (uninitialized_copy first (unat n) new_array st2) (\<lambda>st3.
         ebind (destruct_elements_but_keep_memory this st3) (\<lambda>st4.
         ebind (is_small this st4) (\<lambda>small.
         ebind (if \<not> small
                then ebind (member m_elements this st4) (\<lambda>p. free p st4)
                else Inr st4) (\<lambda>st5.
         assign_member (\<lambda>v. v\<lparr>m_elements := new_array\<rparr>) this st5)))))))))"

definition ensure_space_for_one :: "nat \<Rightarrow> 'a state \<Rightarrow> error + 'a state" where
  "ensure_space_for_one this st =
     ebind (member m_size this st) (\<lambda>n.
     ebind (member m_capacity this st) (\<lambda>cap.
       if n \<ge> cap then grow this (max (cap * 2) 1) st else Inr st))"

definition copy_from_other :: "nat \<Rightarrow> nat \<Rightarrow> 'a state \<Rightarrow> error + 'a state" where
  "copy_from_other this other st =
     ebind (is_small other st) (\<lambda>small.
     ebind (if small
            then assign_member (\<lambda>v. v\<lparr>m_elements := small_buffer this\<rparr>) this st
            else ebind (member m_capacity other st) (\<lambda>cap.
                 case malloc (unat cap) st of (p, st1) \<Rightarrow>
                   assign_member (\<lambda>v. v\<lparr>m_elements := p\<rparr>) this st1)) (\<lambda>st2.
     ebind (member m_elements other st2) (\<lambda>first.
     ebind (member m_size other st2) (\<lambda>n.
     ebind (member m_elements this st2) (\<lambda>dst.
     ebind (uninitialized_copy first (unat n) dst st2) (\<lambda>st3.
     ebind (member m_capacity other st3) (\<lambda>cap.
     ebind (assign_member (\<lambda>v. v\<lparr>m_capacity := cap\<rparr>) this st3) (\<lambda>st4.
     ebind (member m_size other st4) (\<lambda>sz.
     assign_member (\<lambda>v. v\<lparr>m_size := sz\<rparr>) this st4)))))))))"

definition steal_from_other :: "nat \<Rightarrow> nat \<Rightarrow> 'a state \<Rightarrow> error + 'a state" where
  "steal_from_other this other st =
     ebind (is_small other st) (\<lambda>small.
     ebind (if small
            then ebind (member m_elements other st) (\<lambda>first.
                 ebind (member m_size other st) (\<lambda>n.
                 ebind (uninitialized_copy first (unat n) (small_buffer this) st) (\<lambda>st1.
                 assign_member (\<lambda>v. v\<lparr>m_elements := small_buffer this\<rparr>) this st1)))
            else ebind (member m_elements other st) (\<lambda>p.
                 assign_member (\<lambda>v. v\<lparr>m_elements := p\<rparr>) this st)) (\<lambda>st2.
     ebind (member m_capacity other st2) (\<lambda>cap.
     ebind (assign_member (\<lambda>v. v\<lparr>m_capacity := cap\<rparr>) this st2) (\<lambda>st3.
     ebind (member m_size other st3) (\<lambda>sz.
     ebind (assign_member (\<lambda>v. v\<lparr>m_size := sz\<rparr>) this st3) (\<lambda>st4.
     assign_member (\<lambda>v. v\<lparr>m_elements := Null\<rparr>) other st4))))))"

subsection \<open>Construction, destruction and assignment (lines 21--81)\<close>

text \<open>
  Storage for a new container object at address \<open>this\<close>: the inline buffer of \<open>N\<close> raw
  slots and the default member initialisers \<open>m_size = 0\<close>, \<open>m_capacity = N\<close>.
  \<open>m_elements\<close> has no initialiser; the model starts it as null.
\<close>

definition new_object :: "uint \<Rightarrow> nat \<Rightarrow> 'a state \<Rightarrow> 'a state" where
  "new_object N this st =
     st\<lparr>objs := (objs st)(this \<mapsto> \<lparr>m_elements = Null, m_size = 0, m_capacity = N\<rparr>),
        mem := (mem st)(SmallBuf this \<mapsto> replicate (unat N) None)\<rparr>"

definition delete_object :: "nat \<Rightarrow> 'a state \<Rightarrow> 'a state" where
  "delete_object this st =
     st\<lparr>objs := (objs st)(this := None), mem := (mem st)(SmallBuf this := None)\<rparr>"

definition SmallVector_default :: "uint \<Rightarrow> nat \<Rightarrow> 'a state \<Rightarrow> error + 'a state" where
  "SmallVector_default N this st =
     ebind (assign_member (\<lambda>v. v\<lparr>m_elements := small_buffer this\<rparr>) this
              (new_object N this st)) (\<lambda>st1.
     ebind (assign_member (\<lambda>v. v\<lparr>m_capacity := N\<rparr>) this st1) (\<lambda>st2.
     assign_member (\<lambda>v. v\<lparr>m_size := 0\<rparr>) this st2))"

definition reserve :: "nat \<Rightarrow> uint \<Rightarrow> 'a state \<Rightarrow> error + 'a state" where
  "reserve this min_size st = grow this min_size st"

text \<open>
  \<open>append\<close> of a value that lives outside every container (both overloads: the copy from
  \<open>const T &\<close> and the move from \<open>T &&\<close> construct the same element).
\<close>

definition append_value :: "nat \<Rightarrow> 'a \<Rightarrow> 'a state \<Rightarrow> error + 'a state" where
  "append_value this v st =
     ebind (ensure_space_for_one this st) (\<lambda>st1.
     ebind (member m_elements this st1) (\<lambda>p.
     ebind (member m_size this st1) (\<lambda>n.
     ebind (construct_at p (unat n) v st1) (\<lambda>st2.
     assign_member (\<lambda>v. v\<lparr>m_size := m_size v + 1\<rparr>) this st2))))"

text \<open>
  \<open>append(const T &value)\<close> where \<open>value\<close> refers to slot \<open>i\<close> of the storage at \<open>src\<close>:
  the reference is read only after \<open>ensure_space_for_one\<close> has run.
\<close>

definition append_ref :: "nat \<Rightarrow> ptr \<Rightarrow> nat \<Rightarrow> 'a state \<Rightarrow> error + 'a state" where
  "append_ref this src i st =
     ebind (ensure_space_for_one this st) (\<lambda>st1.
     ebind (member m_elements this st1) (\<lambda>p.
     ebind (member m_size this st1) (\<lambda>n.
     ebind (load src i st1) (\<lambda>v.
     ebind (construct_at p (unat n) v st1) (\<lambda>st2.
     assign_member (\<lambda>v. v\<lparr>m_size := m_size v + 1\<rparr>) this st2)))))"

text \<open>\<open>SmallVector(uint size)\<close>; \<open>dflt\<close> is the value of \<open>T()\<close>.\<close>

definition SmallVector_sized :: "uint \<Rightarrow> 'a \<Rightarrow> uint \<Rightarrow> nat \<Rightarrow> 'a state \<Rightarrow> error + 'a state" where
  "SmallVector_sized N dflt count this st =
     ebind (SmallVector_default N this st) (\<lambda>st1.
     ebind (reserve this count st1) (\<lambda>st2.
     foreach [0..<unat count] (\<lambda>i. append_value this dflt) st2))"

text \<open>
  \<open>SmallVector(std::initializer_list<T> values)\<close> with \<open>vals\<close> the elements of
  \<open>values\<close>; \<open>values.size()\<close> converts to \<open>uint\<close>.
\<close>

definition SmallVector_init :: "uint \<Rightarrow> 'a list \<Rightarrow> nat \<Rightarrow> 'a state \<Rightarrow> error + 'a state" where
  "SmallVector_init N vals this st =
     ebind (SmallVector_default N this st) (\<lambda>st1.
     ebind (reserve this (of_nat (length vals)) st1) (\<lambda>st2.
     foreach vals (append_value this) st2))"

definition SmallVector_copy :: "uint \<Rightarrow> nat \<Rightarrow> nat \<Rightarrow> 'a state \<Rightarrow> error + 'a state" where
  "SmallVector_copy N this other st = copy_from_other this other (new_object N this st)"

definition SmallVector_move :: "uint \<Rightarrow> nat \<Rightarrow> nat \<Rightarrow> 'a state \<Rightarrow> error + 'a state" where
  "SmallVector_move N this other st = steal_from_other this other (new_object N this st)"

text \<open>\<open>~SmallVector()\<close>, after which the object and its inline buffer are gone.\<close>

definition destructor :: "nat \<Rightarrow> 'a state \<Rightarrow> error + 'a state" where
  "destructor this st =
     ebind (member m_elements this st) (\<lambda>p.
     ebind (if p \<noteq> Null then destruct_elements_and_free_memory this st else Inr st) (\<lambda>st1.
     Inr (delete_object this st1)))"

definition copy_assign :: "nat \<Rightarrow> nat \<Rightarrow> 'a state \<Rightarrow> error + 'a state" where
  "copy_assign this other st =
     (if this = other then Inr st
      else ebind (destruct_elements_and_free_memory this st) (copy_from_other this other))"

definition move_assign :: "nat \<Rightarrow> nat \<Rightarrow> 'a state \<Rightarrow> error + 'a state" where
  "move_assign this other st =
     ebind (destruct_elements_and_free_memory this st) (steal_from_other this other)"

subsection \<open>Public member functions (lines 83--187)\<close>

text \<open>
  \<open>extend\<close>: the range-based \<open>for\<close> evaluates \<open>other.begin()\<close> and \<open>other.end()\<close> once and
  passes each element to \<open>append\<close> by reference.
\<close>

definition extend_sv :: "nat \<Rightarrow> nat \<Rightarrow> 'a state \<Rightarrow> error + 'a state" where
  "extend_sv this other st =
     ebind (member m_elements other st) (\<lambda>first.
     ebind (member m_size other st) (\<lambda>n.
       foreach [0..<unat n] (append_ref this first) st))"

definition fill :: "nat \<Rightarrow> 'a \<Rightarrow> 'a state \<Rightarrow> error + 'a state" where
  "fill this v st =
     ebind (member m_size this st) (\<lambda>n.
     ebind (member m_elements this st) (\<lambda>p.
       foreach [0..<unat n] (\<lambda>i. assign_at p i v) st))"

definition size_sv :: "nat \<Rightarrow> 'a state \<Rightarrow> error + uint" where
  "size_sv this st = member m_size this st"

definition empty_sv :: "nat \<Rightarrow> 'a state \<Rightarrow> error + bool" where
  "empty_sv this st = ebind (size_sv this st) (\<lambda>n. Inr (n = 0))"

definition remove_last :: "nat \<Rightarrow> 'a state \<Rightarrow> error + 'a state" where
  "remove_last this st =
     ebind (empty_sv this st) (\<lambda>e.
     ebind (BLI_assert (\<not> e) st) (\<lambda>st0.
     ebind (member m_size this st0) (\<lambda>n.
     ebind (destruct_element this (n - 1) st0) (\<lambda>st1.
     assign_member (\<lambda>v. v\<lparr>m_size := m_size v - 1\<rparr>) this st1))))"

text \<open>
  \<open>std::copy\<close> over the one-element range \<open>[end() - 1, end())\<close> with move iterators is the
  move assignment \<open>m_elements[index] = std::move(m_elements[m_size - 1])\<close>.
\<close>

definition remove_and_reorder :: "nat \<Rightarrow> uint \<Rightarrow> 'a state \<Rightarrow> error + 'a state" where
  "remove_and_reorder this index st =
     ebind (is_index_in_range this index st) (\<lambda>ok.
     ebind (BLI_assert ok st) (\<lambda>st0.
     ebind (member m_size this st0) (\<lambda>n.
     ebind (member m_elements this st0) (\<lambda>p.
     ebind (if index < n - 1
            then ebind (load p (unat n - 1) st0) (\<lambda>v. assign_at p (unat index) v st0)
            else Inr st0) (\<lambda>st1.
     ebind (member m_size this st1) (\<lambda>n1.
     ebind (destruct_element this (n1 - 1) st1) (\<lambda>st2.
     assign_member (\<lambda>v. v\<lparr>m_size := m_size v - 1\<rparr>) this st2)))))))"

text \<open>
  \<open>operator[](const int index)\<close>: the \<open>int\<close> converts to \<open>uint\<close> for the range check and
  indexes the array as a signed number.
\<close>

definition operator_index :: "nat \<Rightarrow> uint \<Rightarrow> 'a state \<Rightarrow> error + 'a" where
  "operator_index this index st =
     ebind (is_index_in_range this index st) (\<lambda>ok.
     ebind (BLI_assert ok st) (\<lambda>st0.
     ebind (member m_elements this st0) (\<lambda>p.
       if sint index < 0 then Inl (UB OutOfBounds)
       else load p (nat (sint index)) st0)))"

subsection \<open>Representation invariant\<close>

text \<open>
  \<open>holds N st this xs\<close>: the object at \<open>this\<close> is a usable container of a
  \<open>SmallVector<T, N>\<close> whose live elements are \<open>xs\<close>. Its data pointer is its own inline
  buffer (with capacity \<open>N\<close>) or a heap block that \<open>malloc\<close> has handed out (with capacity
  at least \<open>N\<close>); the storage has exactly \<open>m_capacity\<close> slots and the first \<open>m_size\<close> of
  them hold \<open>xs\<close>.
\<close>

definition holds :: "uint \<Rightarrow> 'a state \<Rightarrow> nat \<Rightarrow> 'a list \<Rightarrow> bool" where
  "holds N st this xs =
     (case objs st this of
        None \<Rightarrow> False
      | Some v \<Rightarrow>
          (case mem st (m_elements v) of
             None \<Rightarrow> False
           | Some cs \<Rightarrow>
               (case m_elements v of
                  Null \<Rightarrow> False
                | SmallBuf a \<Rightarrow> a = this \<and> m_capacity v = N
                | HeapBlk b \<Rightarrow> b < mallocs st \<and> N \<le> m_capacity v) \<and>
               length cs = unat (m_capacity v) \<and>
               unat (m_size v) = length xs \<and>
               length xs \<le> length cs \<and>
               take (length xs) cs = map Some xs))"


text \<open>The specification's invariant \<open>capacity >= max(N, length)\<close>.\<close>

definition capacity_ok :: "uint \<Rightarrow> 'a state \<Rightarrow> nat \<Rightarrow> bool" where
  "capacity_ok N st this =
     (case objs st this of
        None \<Rightarrow> False
      | Some v \<Rightarrow> max N (m_size v) \<le> m_capacity v)"

text \<open>
  \<open>capacity_kept this st st'\<close>: the container at \<open>this\<close> exists before and after, and its
  \<open>m_capacity\<close> after is at least its \<open>m_capacity\<close> before.
\<close>

definition capacity_kept :: "nat \<Rightarrow> 'a state \<Rightarrow> 'a state \<Rightarrow> bool" where
  "capacity_kept this st st' =
     (case objs st this of
        None \<Rightarrow> False
      | Some v \<Rightarrow> (case objs st' this of
                     None \<Rightarrow> False
                   | Some v' \<Rightarrow> m_capacity v \<le> m_capacity v'))"

text \<open>
  A program start: no container exists, nothing is allocated, and the allocator grants
  every request. \<open>st_oom_after n\<close> is the same start with an allocator that grants its first
  \<open>n\<close> requests and refuses every later one.
\<close>

definition st_empty :: "'a state" where
  "st_empty = \<lparr>objs = (\<lambda>a. None), mem = (\<lambda>p. None), mallocs = 0,
               refuse = (\<lambda>k. False), constructions = 0, destructions = 0\<rparr>"

definition st_oom_after :: "nat \<Rightarrow> 'a state" where
  "st_oom_after n = st_empty\<lparr>refuse := (\<lambda>k. n \<le> k)\<rparr>"

text \<open>
  The capacity of a default-constructed container after \<open>k\<close> appends, read off
  \<open>ensure_space_for_one\<close>: the append that finds \<open>m_size >= m_capacity\<close> asks \<open>grow\<close> for
  \<open>max (m_capacity * 2) 1\<close>.
\<close>

primrec capacity_after :: "uint \<Rightarrow> nat \<Rightarrow> uint" where
  "capacity_after N 0 = N"
| "capacity_after N (Suc k) =
     (if of_nat k < capacity_after N k then capacity_after N k
      else max (capacity_after N k * 2) 1)"

section \<open>Basic facts\<close>

lemma ebind_simps:
  "ebind (Inl e) f = Inl e" "ebind (Inr x) f = f x"
  by (simp_all add: ebind_def)

lemma holds_iff:
  "holds N st this xs \<longleftrightarrow>
     (\<exists>v cs. objs st this = Some v \<and> mem st (m_elements v) = Some cs \<and>
        (m_elements v = SmallBuf this \<and> m_capacity v = N \<or>
         (\<exists>b. m_elements v = HeapBlk b \<and> b < mallocs st \<and> N \<le> m_capacity v)) \<and>
        length cs = unat (m_capacity v) \<and> unat (m_size v) = length xs \<and>
        length xs \<le> length cs \<and> take (length xs) cs = map Some xs)"
  by (auto simp: holds_def split: option.splits ptr.splits)

lemma member_Some [simp]: "objs st this = Some v \<Longrightarrow> member f this st = Inr (f v)"
  by (simp add: member_def)

lemma assign_member_Some [simp]:
  "objs st this = Some v \<Longrightarrow>
   assign_member f this st = Inr (st\<lparr>objs := (objs st)(this \<mapsto> f v)\<rparr>)"
  by (simp add: assign_member_def)

lemma foreach_append:
  "foreach (xs @ ys) f s = ebind (foreach xs f s) (foreach ys f)"
  by (induction xs arbitrary: s) (auto simp: ebind_def split: sum.splits)

lemma foreach_upt_Suc:
  "foreach [0..<Suc n] f s = ebind (foreach [0..<n] f s) (f n)"
  by (simp add: foreach_append ebind_def split: sum.splits)

lemma take_drop_update:
  "n < length cs \<Longrightarrow> n < length ds \<Longrightarrow>
   (take n cs @ drop n ds)[n := cs ! n] = take (Suc n) cs @ drop (Suc n) ds"
  by (simp add: list_update_append take_Suc_conv_app_nth drop_Suc
      upd_conv_take_nth_drop flip: drop_Suc tl_drop)

lemma cells_Some [simp]: "p \<noteq> Null \<Longrightarrow> mem st p = Some cs \<Longrightarrow> cells p st = Inr cs"
  by (cases p) (simp_all add: cells_def)

lemma cells_Null [simp]: "cells Null st = Inl (UB NullDeref)"
  by (simp add: cells_def)

lemma uninitialized_copy_ok:
  assumes "mem st src = Some cs" "mem st dst = Some ds" "src \<noteq> dst"
    "src \<noteq> Null" "dst \<noteq> Null"
  shows "n \<le> length cs \<Longrightarrow> n \<le> length ds \<Longrightarrow> \<forall>i<n. cs ! i \<noteq> None \<Longrightarrow>
     uninitialized_copy src n dst st =
     Inr (st\<lparr>mem := (mem st)(dst \<mapsto> take n cs @ drop n ds),
             constructions := constructions st + n\<rparr>)"
proof (induction n)
  case 0
  then show ?case using assms by (simp add: uninitialized_copy_def map_upd_triv)
next
  case (Suc n)
  then obtain v where v: "cs ! n = Some v" by (cases "cs ! n") auto
  have IH: "uninitialized_copy src n dst st =
     Inr (st\<lparr>mem := (mem st)(dst \<mapsto> take n cs @ drop n ds),
             constructions := constructions st + n\<rparr>)"
    by (rule Suc.IH) (use Suc.prems in auto)
  have upd: "(take n cs @ drop n ds)[n := Some v] = take (Suc n) cs @ drop (Suc n) ds"
    using take_drop_update[of n cs ds] Suc.prems v by simp
  have len: "n < length ds" "n < length cs" using Suc.prems by auto
  show ?case
    using IH assms v upd len
    unfolding uninitialized_copy_def foreach_upt_Suc
    by (simp add: ebind_simps load_def construct_at_def)
       (rule state.equality; simp add: fun_eq_iff)
qed


lemma unat_of_nat_uint: "k < unat (w :: uint) \<Longrightarrow> unat (of_nat k :: uint) = k"
  by (rule le_unat_uoi[of k w]) simp

lemma replicate_drop_update:
  "k < length cs \<Longrightarrow>
   (replicate k x @ drop k cs)[k := x] = replicate (Suc k) x @ drop (Suc k) cs"
  by (simp add: list_update_append replicate_append_same flip: Cons_nth_drop_Suc)

lemma destruct_loop:
  assumes "objs st this = Some v" "m_elements v = p" "p \<noteq> Null" "mem st p = Some cs"
  shows "k \<le> length cs \<Longrightarrow> k \<le> unat (m_size v) \<Longrightarrow> \<forall>i<k. cs ! i \<noteq> None \<Longrightarrow>
     foreach [0..<k] (\<lambda>i. destruct_element this (of_nat i)) st =
     Inr (st\<lparr>mem := (mem st)(p \<mapsto> replicate k None @ drop k cs),
             destructions := destructions st + k\<rparr>)"
proof (induction k)
  case 0
  then show ?case using assms by (simp add: map_upd_triv)
next
  case (Suc k)
  then obtain x where x: "cs ! k = Some x" by (cases "cs ! k") auto
  have IH: "foreach [0..<k] (\<lambda>i. destruct_element this (of_nat i)) st =
     Inr (st\<lparr>mem := (mem st)(p \<mapsto> replicate k None @ drop k cs),
             destructions := destructions st + k\<rparr>)"
    by (rule Suc.IH) (use Suc.prems in auto)
  have k: "unat (of_nat k :: uint) = k" "k < length cs"
    using Suc.prems unat_of_nat_uint[of k "m_size v"] by auto
  have nth: "(replicate k None @ drop k cs) ! k = Some x"
    using k x by (simp add: nth_append)
  show ?case
    using IH assms k nth replicate_drop_update[of k cs None]
    unfolding foreach_upt_Suc
    by (simp add: ebind_simps destruct_element_def destruct_at_def)
       (rule state.equality; simp add: fun_eq_iff)
qed

lemma destruct_elements_but_keep_memory_ok:
  assumes "objs st this = Some v" "m_elements v = p" "p \<noteq> Null" "mem st p = Some cs"
    "unat (m_size v) \<le> length cs" "\<forall>i<unat (m_size v). cs ! i \<noteq> None"
  shows "destruct_elements_but_keep_memory this st =
     Inr (st\<lparr>mem := (mem st)(p \<mapsto> replicate (unat (m_size v)) None @ drop (unat (m_size v)) cs),
             destructions := destructions st + unat (m_size v)\<rparr>)"
  using assms destruct_loop[OF assms(1-4), of "unat (m_size v)"]
  by (simp add: destruct_elements_but_keep_memory_def ebind_simps)


lemma grow_noop:
  "objs st this = Some v \<Longrightarrow> m \<le> m_capacity v \<Longrightarrow> grow this m st = Inr st"
  by (simp add: grow_def ebind_simps)

lemma grow_ok:
  assumes h: "holds N st this xs" and v: "objs st this = Some v"
    and m: "m_capacity v < m" and ok: "\<not> refuse st (mallocs st)"
  shows "\<exists>st'. grow this m st = Inr st' \<and> holds N st' this xs \<and>
     objs st' = (objs st)(this \<mapsto>
        \<lparr>m_elements = HeapBlk (mallocs st), m_size = m_size v, m_capacity = m\<rparr>) \<and>
     refuse st' = refuse st \<and> mallocs st' = Suc (mallocs st) \<and>
     constructions st' = constructions st + length xs \<and>
     destructions st' = destructions st + length xs"
proof -
  define p where "p = m_elements v"
  define n where "n = unat (m_size v)"
  define k where "k = mallocs st"
  from h v obtain cs where cs: "mem st p = Some cs"
    and shape: "p = SmallBuf this \<and> m_capacity v = N \<or>
                (\<exists>b. p = HeapBlk b \<and> b < k \<and> N \<le> m_capacity v)"
    and len: "length cs = unat (m_capacity v)" "n = length xs" "length xs \<le> length cs"
    and xs: "take (length xs) cs = map Some xs"
    unfolding holds_iff p_def n_def k_def by auto
  have pk: "p \<noteq> HeapBlk k" "p \<noteq> Null" using shape by auto
  have live: "\<forall>i<n. cs ! i \<noteq> None"
  proof (intro allI impI)
    fix i assume "i < n"
    then have "cs ! i = take (length xs) cs ! i" using len by simp
    also have "\<dots> = Some (xs ! i)" using xs \<open>i < n\<close> len by simp
    finally show "cs ! i \<noteq> None" by simp
  qed
  have nm: "n \<le> unat m" "unat (m_capacity v) < unat m"
    using m len by (auto simp: word_less_nat_alt)
  define st1 where "st1 = st\<lparr>objs := (objs st)(this \<mapsto> v\<lparr>m_capacity := m\<rparr>)\<rparr>"
  define st2 where "st2 = st1\<lparr>mem := (mem st1)(HeapBlk k \<mapsto> replicate (unat m) None),
                              mallocs := Suc k\<rparr>"
  define st3 where "st3 = st2\<lparr>mem := (mem st2)(HeapBlk k \<mapsto>
                                take n cs @ drop n (replicate (unat m) None)),
                              constructions := constructions st2 + n\<rparr>"
  define st4 where "st4 = st3\<lparr>mem := (mem st3)(p \<mapsto> replicate n None @ drop n cs),
                              destructions := destructions st3 + n\<rparr>"
  define st5 where "st5 = (if p = SmallBuf this then st4 else st4\<lparr>mem := (mem st4)(p := None)\<rparr>)"
  define st6 where "st6 = st5\<lparr>objs := (objs st5)(this \<mapsto>
                                v\<lparr>m_capacity := m, m_elements := HeapBlk k\<rparr>)\<rparr>"
  have o1: "objs st1 this = Some (v\<lparr>m_capacity := m\<rparr>)" by (simp add: st1_def)
  have e2: "malloc (unat m) st1 = (HeapBlk k, st2)"
    using ok by (simp add: malloc_def st1_def st2_def k_def)
  have o2: "objs st2 this = Some (v\<lparr>m_capacity := m\<rparr>)" by (simp add: st2_def o1)
  have m2: "mem st2 p = Some cs" "mem st2 (HeapBlk k) = Some (replicate (unat m) None)"
    using pk cs by (simp_all add: st2_def st1_def)
  have e3: "uninitialized_copy p n (HeapBlk k) st2 = Inr st3"
    unfolding st3_def
    by (rule uninitialized_copy_ok[OF m2(1) m2(2) pk(1) pk(2)]) (use len nm live in auto)
  have o3: "objs st3 this = Some (v\<lparr>m_capacity := m\<rparr>)" by (simp add: st3_def o2)
  have m3: "mem st3 p = Some cs" using pk m2 by (simp add: st3_def)
  have e4: "destruct_elements_but_keep_memory this st3 = Inr st4"
    using destruct_elements_but_keep_memory_ok[OF o3 _ pk(2) m3] len live
    by (simp add: st4_def p_def n_def)
  have o4: "objs st4 this = Some (v\<lparr>m_capacity := m\<rparr>)" by (simp add: st4_def o3)
  have e5: "is_small this st4 = Inr (p = SmallBuf this)"
    using o4 by (simp add: is_small_def small_buffer_def p_def)
  have e6: "(if \<not> (p = SmallBuf this)
              then ebind (member m_elements this st4) (\<lambda>q. free q st4)
              else Inr st4) = Inr st5"
    using shape o4 by (auto simp: free_def st5_def st4_def ebind_simps p_def)
  have o5: "objs st5 this = Some (v\<lparr>m_capacity := m\<rparr>)" by (simp add: st5_def o4)
  have e7: "assign_member (\<lambda>v. v\<lparr>m_elements := HeapBlk k\<rparr>) this st5 = Inr st6"
    using o5 by (simp add: st6_def)
  have g: "grow this m st = Inr st6"
    using v m o1 e2 o2 e3 e4 o4 e5 e6 e7
    by (simp add: grow_def ebind_simps st1_def[symmetric] p_def[symmetric] n_def[symmetric]
        not_le[symmetric])
  have o6: "objs st6 = (objs st)(this \<mapsto>
        \<lparr>m_elements = HeapBlk k, m_size = m_size v, m_capacity = m\<rparr>)"
    by (cases v) (auto simp: st6_def st5_def st4_def st3_def st2_def st1_def fun_eq_iff)
  have m6: "mem st6 (HeapBlk k) = Some (take n cs @ drop n (replicate (unat m) None))"
    using pk by (simp add: st6_def st5_def st4_def st3_def)
  have r6: "refuse st6 = refuse st" "mallocs st6 = Suc k"
    "constructions st6 = constructions st + n" "destructions st6 = destructions st + n"
    by (simp_all add: st6_def st5_def st4_def st3_def st2_def st1_def)
  have Nm: "N \<le> m" using shape m by auto
  have "holds N st6 this xs"
    unfolding holds_iff using o6 m6 r6 Nm len nm xs by (simp add: n_def)
  then show ?thesis using g o6 r6 len by (simp add: k_def n_def)
qed

subsection \<open>Arithmetic of \<open>uint\<close>\<close>

lemma double_grows: "unat (c::uint) < 2 ^ 31 \<Longrightarrow> c < max (c * 2) 1"
proof -
  assume c: "unat c < 2 ^ 31"
  have "unat (c * 2) = (unat c * 2) mod 2 ^ 32"
    by (simp add: unat_word_ariths)
  also have "\<dots> = unat c * 2" using c by simp
  finally have d: "unat (c * 2) = unat c * 2" .
  show ?thesis
  proof (cases "c = 0")
    case True
    then show ?thesis by simp
  next
    case False
    then have "0 < unat c" by (simp add: unat_gt_0)
    then have "c < c * 2" using d by (simp add: word_less_nat_alt)
    then show ?thesis by (simp add: less_max_iff_disj)
  qed
qed

lemma double_wraps: "2 ^ 31 \<le> unat (c::uint) \<Longrightarrow> max (c * 2) 1 \<le> c"
proof -
  assume c: "2 ^ 31 \<le> unat c"
  have lt: "unat c < 2 ^ 32" using unsigned_less[of c, where 'a=nat] by simp
  have "unat (c * 2) = (unat c * 2) mod 2 ^ 32"
    by (simp add: unat_word_ariths)
  also have "\<dots> = unat c * 2 - 2 ^ 32"
    using c lt by (simp add: mod_if)
  finally have d: "unat (c * 2) = unat c * 2 - 2 ^ 32" .
  have "c * 2 \<le> c" using d lt by (simp add: word_le_nat_alt)
  moreover have "1 \<le> c" using c by (simp add: word_le_nat_alt)
  ultimately show ?thesis by (simp add: max_def)
qed

lemma unat_inc: "(a::uint) < b \<Longrightarrow> unat (a + 1) = Suc (unat a)"
proof -
  assume "a < b"
  then have "unat a < unat b" by (simp add: word_less_nat_alt)
  moreover have "unat b < 2 ^ 32" using unsigned_less[of b, where 'a=nat] by simp
  ultimately have "unat a + unat (1::uint) < 2 ^ LENGTH(32)" by simp
  then have "unat (a + 1) = unat a + unat (1::uint)" by (simp only: unat_add_lem)
  then show ?thesis by simp
qed

section \<open>Appending\<close>

lemma take_Suc_update:
  "n < length cs \<Longrightarrow> take (Suc n) (cs[n := y]) = take n cs @ [y]"
  by (simp add: take_Suc_conv_app_nth)

lemma ensure_space_room:
  "objs st this = Some v \<Longrightarrow> m_size v < m_capacity v \<Longrightarrow> ensure_space_for_one this st = Inr st"
  by (auto simp: ensure_space_for_one_def ebind_simps)

lemma ensure_space_full:
  "objs st this = Some v \<Longrightarrow> m_capacity v \<le> m_size v \<Longrightarrow>
   ensure_space_for_one this st = grow this (max (m_capacity v * 2) 1) st"
  by (simp add: ensure_space_for_one_def ebind_simps)

lemma append_value_room:
  assumes h: "holds N st this xs" and v: "objs st this = Some v"
    and room: "m_size v < m_capacity v"
  shows "\<exists>st'. append_value this x st = Inr st' \<and> holds N st' this (xs @ [x]) \<and>
     objs st' = (objs st)(this \<mapsto> v\<lparr>m_size := m_size v + 1\<rparr>) \<and>
     refuse st' = refuse st \<and> mallocs st' = mallocs st \<and>
     constructions st' = Suc (constructions st) \<and> destructions st' = destructions st"
proof -
  define p where "p = m_elements v"
  from h v obtain cs where cs: "mem st p = Some cs"
    and shape: "p = SmallBuf this \<and> m_capacity v = N \<or>
                (\<exists>b. p = HeapBlk b \<and> b < mallocs st \<and> N \<le> m_capacity v)"
    and len: "length cs = unat (m_capacity v)" "unat (m_size v) = length xs"
    and xs: "take (length xs) cs = map Some xs"
    unfolding holds_iff p_def by auto
  have p: "p \<noteq> Null" using shape by auto
  have lt: "length xs < length cs" using room len by (simp add: word_less_nat_alt)
  define st' where "st' = st\<lparr>mem := (mem st)(p \<mapsto> cs[length xs := Some x]),
                              constructions := Suc (constructions st),
                              objs := (objs st)(this \<mapsto> v\<lparr>m_size := m_size v + 1\<rparr>)\<rparr>"
  have a: "append_value this x st = Inr st'"
    using v room cs p lt len
    by (simp add: append_value_def ensure_space_room ebind_simps construct_at_def
        p_def[symmetric] st'_def)
  have sz: "unat (m_size v + 1) = Suc (length xs)" using unat_inc[OF room] len by simp
  have "holds N st' this (xs @ [x])"
    unfolding holds_iff using shape cs len lt xs sz
    by (auto simp: st'_def p_def[symmetric] take_Suc_update)
  then show ?thesis using a by (auto simp: st'_def)
qed

lemma append_value_after_ensure:
  "ensure_space_for_one this st = Inr st1 \<Longrightarrow> ensure_space_for_one this st1 = Inr st1 \<Longrightarrow>
   append_value this x st = append_value this x st1"
  by (simp add: append_value_def ebind_simps)

lemma append_value_grow:
  assumes h: "holds N st this xs" and v: "objs st this = Some v"
    and full: "m_capacity v \<le> m_size v"
    and c: "unat (m_capacity v) < 2 ^ 31" and ok: "\<not> refuse st (mallocs st)"
  shows "\<exists>st'. append_value this x st = Inr st' \<and> holds N st' this (xs @ [x]) \<and>
     objs st' = (objs st)(this \<mapsto> \<lparr>m_elements = HeapBlk (mallocs st),
                    m_size = m_size v + 1, m_capacity = max (m_capacity v * 2) 1\<rparr>) \<and>
     refuse st' = refuse st \<and> mallocs st' = Suc (mallocs st) \<and>
     constructions st' = Suc (constructions st + length xs) \<and>
     destructions st' = destructions st + length xs"
proof -
  define m where "m = max (m_capacity v * 2) 1"
  have m: "m_capacity v < m" unfolding m_def by (rule double_grows[OF c])
  from grow_ok[OF h v m ok] obtain st1 where g: "grow this m st = Inr st1"
    and h1: "holds N st1 this xs"
    and o1: "objs st1 = (objs st)(this \<mapsto>
        \<lparr>m_elements = HeapBlk (mallocs st), m_size = m_size v, m_capacity = m\<rparr>)"
    and r1: "refuse st1 = refuse st" "mallocs st1 = Suc (mallocs st)"
      "constructions st1 = constructions st + length xs"
      "destructions st1 = destructions st + length xs"
    by blast
  define v1 where "v1 = \<lparr>m_elements = HeapBlk (mallocs st), m_size = m_size v, m_capacity = m\<rparr>"
  have v1: "objs st1 this = Some v1" by (simp add: o1 v1_def)
  have sz: "m_size v \<le> m_capacity v"
    using h v unfolding holds_iff by (auto simp: word_le_nat_alt)
  have room: "m_size v1 < m_capacity v1" using m sz by (simp add: v1_def)
  have e: "ensure_space_for_one this st = Inr st1"
    using ensure_space_full[OF v full] g by (simp add: m_def)
  have e1: "ensure_space_for_one this st1 = Inr st1" by (rule ensure_space_room[OF v1 room])
  from append_value_room[OF h1 v1 room, of x] obtain st' where
    a: "append_value this x st1 = Inr st'" and h': "holds N st' this (xs @ [x])"
    and o': "objs st' = (objs st1)(this \<mapsto> v1\<lparr>m_size := m_size v1 + 1\<rparr>)"
    and r': "refuse st' = refuse st1" "mallocs st' = mallocs st1"
      "constructions st' = Suc (constructions st1)" "destructions st' = destructions st1"
    by blast
  have "append_value this x st = Inr st'"
    using append_value_after_ensure[OF e e1] a by simp
  moreover have "objs st' = (objs st)(this \<mapsto> \<lparr>m_elements = HeapBlk (mallocs st),
                    m_size = m_size v + 1, m_capacity = m\<rparr>)"
    by (simp add: o' o1 v1_def)
  ultimately show ?thesis using h' r' r1 by (auto simp: m_def)
qed

lemma append_value_overflow:
  assumes h: "holds N st this xs" and v: "objs st this = Some v"
    and full: "m_capacity v \<le> m_size v" and c: "2 ^ 31 \<le> unat (m_capacity v)"
  shows "ensure_space_for_one this st = Inr st"
    and "append_value this x st = Inl (UB OutOfBounds)"
proof -
  have e: "grow this (max (m_capacity v * 2) 1) st = Inr st"
    by (rule grow_noop[OF v double_wraps[OF c]])
  then show e': "ensure_space_for_one this st = Inr st"
    using ensure_space_full[OF v full] by simp
  from h v obtain cs where cs: "mem st (m_elements v) = Some cs" "m_elements v \<noteq> Null"
    and len: "length cs = unat (m_capacity v)"
    unfolding holds_iff by auto
  have "length cs \<le> unat (m_size v)" using full len by (simp add: word_le_nat_alt)
  then show "append_value this x st = Inl (UB OutOfBounds)"
    using e' v cs by (simp add: append_value_def ebind_simps construct_at_def)
qed

lemma sint_of_nat_uint: "i < 2 ^ 31 \<Longrightarrow> sint (of_nat i :: uint) = int i"
  by (simp add: signed_of_nat signed_take_bit_int_eq_self)

lemma unat_of_nat_small: "i < 2 ^ 32 \<Longrightarrow> unat (of_nat i :: uint) = i"
  by (simp add: unat_of_nat)

lemma holds_size:
  "holds N st this xs \<Longrightarrow> \<exists>n. size_sv this st = Inr n \<and> unat n = length xs"
  unfolding holds_iff by (auto simp: size_sv_def)

lemma holds_nth:
  assumes h: "holds N st this xs" and i: "i < length xs" "i < 2 ^ 31"
  shows "operator_index this (of_nat i) st = Inr (xs ! i)"
proof -
  from h obtain v cs where v: "objs st this = Some v"
    and cs: "mem st (m_elements v) = Some cs" "m_elements v \<noteq> Null"
    and len: "unat (m_size v) = length xs" "length xs \<le> length cs"
    and xs: "take (length xs) cs = map Some xs"
    unfolding holds_iff by auto
  have u: "unat (of_nat i :: uint) = i" using i by (simp add: unat_of_nat_small)
  have r: "(of_nat i :: uint) < m_size v" using u i len by (simp add: word_less_nat_alt)
  have "cs ! i = take (length xs) cs ! i" using i by simp
  then have c: "cs ! i = Some (xs ! i)" using xs i by simp
  show ?thesis
    using v cs r c i len sint_of_nat_uint[OF i(2)]
    by (simp add: operator_index_def is_index_in_range_def BLI_assert_def ebind_simps load_def)
qed

lemma SmallVector_default_holds:
  "\<exists>st'. SmallVector_default N this st = Inr st' \<and> holds N st' this [] \<and>
     objs st' = (objs st)(this \<mapsto> \<lparr>m_elements = SmallBuf this, m_size = 0, m_capacity = N\<rparr>) \<and>
     refuse st' = refuse st \<and> mallocs st' = mallocs st \<and>
     constructions st' = constructions st \<and> destructions st' = destructions st"
  by (simp add: SmallVector_default_def new_object_def ebind_simps small_buffer_def holds_def)

lemma holds_size_le_capacity:
  "holds N st this xs \<Longrightarrow> objs st this = Some v \<Longrightarrow>
   m_size v \<le> m_capacity v \<and> unat (m_size v) = length xs"
  unfolding holds_iff by (auto simp: word_le_nat_alt)

lemma holds_obj: "holds N st this xs \<Longrightarrow> \<exists>v. objs st this = Some v"
  unfolding holds_iff by auto

lemma append_value_holds:
  assumes h: "holds N st this xs" and ok: "\<not> refuse st (mallocs st)"
    and small: "length xs < 2 ^ 31"
  shows "\<exists>st'. append_value this x st = Inr st' \<and> holds N st' this (xs @ [x]) \<and>
     refuse st' = refuse st"
proof -
  from holds_obj[OF h] obtain v where v: "objs st this = Some v" by blast
  note sz = holds_size_le_capacity[OF h v]
  show ?thesis
  proof (cases "m_size v < m_capacity v")
    case True
    from append_value_room[OF h v True, of x] show ?thesis by blast
  next
    case False
    then have full: "m_capacity v \<le> m_size v" by simp
    then have "unat (m_capacity v) \<le> length xs" using sz by (simp add: word_le_nat_alt)
    then have c: "unat (m_capacity v) < 2 ^ 31" using small by simp
    from append_value_grow[OF h v full c ok, of x] show ?thesis by blast
  qed
qed

lemma foreach_append_value_holds:
  "holds N st this xs \<Longrightarrow> \<forall>k. \<not> refuse st k \<Longrightarrow> length xs + length ys \<le> 2 ^ 31 \<Longrightarrow>
   \<exists>st'. foreach ys (append_value this) st = Inr st' \<and> holds N st' this (xs @ ys) \<and>
     refuse st' = refuse st"
proof (induction ys arbitrary: st xs)
  case Nil
  then show ?case by (intro exI[of _ st]) simp
next
  case (Cons y ys)
  from Cons.prems have "length xs < 2 ^ 31" by simp
  with append_value_holds[OF Cons.prems(1), of y] Cons.prems(2)
  obtain st1 where a: "append_value this y st = Inr st1"
    and h1: "holds N st1 this (xs @ [y])" and r1: "refuse st1 = refuse st"
    by blast
  have "\<exists>st'. foreach ys (append_value this) st1 = Inr st' \<and>
      holds N st' this ((xs @ [y]) @ ys) \<and> refuse st' = refuse st1"
    by (rule Cons.IH[OF h1]) (use Cons.prems r1 in auto)
  then show ?case using a r1 by (auto simp: ebind_simps)
qed

section \<open>Reserving and constructing\<close>

lemma reserve_holds:
  assumes h: "holds N st this xs" and v: "objs st this = Some v"
    and ok: "\<not> refuse st (mallocs st)"
  shows "\<exists>st'. reserve this m st = Inr st' \<and> holds N st' this xs \<and>
     objs st' = (if m \<le> m_capacity v then objs st
                 else (objs st)(this \<mapsto> \<lparr>m_elements = HeapBlk (mallocs st),
                                        m_size = m_size v, m_capacity = m\<rparr>)) \<and>
     refuse st' = refuse st \<and>
     mallocs st' = (if m \<le> m_capacity v then mallocs st else Suc (mallocs st))"
proof (cases "m \<le> m_capacity v")
  case True
  then show ?thesis using h grow_noop[OF v True] by (simp add: reserve_def)
next
  case False
  then have "m_capacity v < m" by simp
  from grow_ok[OF h v this ok] False show ?thesis by (auto simp: reserve_def)
qed

lemma foreach_append_value_room:
  "holds N st this xs \<Longrightarrow> objs st this = Some v \<Longrightarrow>
   length xs + length ys \<le> unat (m_capacity v) \<Longrightarrow>
   \<exists>st'. foreach ys (append_value this) st = Inr st' \<and> holds N st' this (xs @ ys) \<and>
     (\<exists>v'. objs st' this = Some v' \<and> m_elements v' = m_elements v \<and>
            m_capacity v' = m_capacity v) \<and>
     refuse st' = refuse st \<and> mallocs st' = mallocs st \<and>
     constructions st' = constructions st + length ys \<and>
     destructions st' = destructions st"
proof (induction ys arbitrary: st xs v)
  case Nil
  then show ?case by (intro exI[of _ st]) simp
next
  case (Cons y ys)
  have sz: "unat (m_size v) = length xs"
    using holds_size_le_capacity[OF Cons.prems(1,2)] by simp
  then have room: "m_size v < m_capacity v"
    using Cons.prems(3) by (simp add: word_less_nat_alt)
  from append_value_room[OF Cons.prems(1,2) room, of y]
  obtain st1 where a: "append_value this y st = Inr st1"
    and h1: "holds N st1 this (xs @ [y])"
    and o1: "objs st1 = (objs st)(this \<mapsto> v\<lparr>m_size := m_size v + 1\<rparr>)"
    and r1: "refuse st1 = refuse st" "mallocs st1 = mallocs st"
      "constructions st1 = Suc (constructions st)" "destructions st1 = destructions st"
    by blast
  have v1: "objs st1 this = Some (v\<lparr>m_size := m_size v + 1\<rparr>)" by (simp add: o1)
  have "\<exists>st'. foreach ys (append_value this) st1 = Inr st' \<and>
      holds N st' this ((xs @ [y]) @ ys) \<and>
      (\<exists>v'. objs st' this = Some v' \<and> m_elements v' = m_elements (v\<lparr>m_size := m_size v + 1\<rparr>) \<and>
            m_capacity v' = m_capacity (v\<lparr>m_size := m_size v + 1\<rparr>)) \<and>
      refuse st' = refuse st1 \<and> mallocs st' = mallocs st1 \<and>
      constructions st' = constructions st1 + length ys \<and>
      destructions st' = destructions st1"
    by (rule Cons.IH[OF h1 v1]) (use Cons.prems in simp)
  then show ?case using a r1 by (auto simp: ebind_simps)
qed

lemma foreach_single: "foreach [x] f = f x"
  by (rule ext) (simp add: ebind_def split: sum.splits)

lemma foreach_const:
  "foreach [0..<n] (\<lambda>i. f d) s = foreach (replicate n d) f s"
proof (induction n arbitrary: s)
  case 0
  then show ?case by simp
next
  case (Suc n)
  have "replicate (Suc n) d = replicate n d @ [d]" by (simp add: replicate_append_same)
  then show ?case using Suc by (simp add: foreach_append foreach_single del: replicate_Suc)
qed

lemma SmallVector_init_holds:
  assumes ok: "\<forall>k. \<not> refuse st k" and len: "length vals \<le> 2 ^ 31"
  shows "\<exists>st'. SmallVector_init N vals this st = Inr st' \<and> holds N st' this vals \<and>
     refuse st' = refuse st"
proof -
  from SmallVector_default_holds[of N this st] obtain st0 where
    d: "SmallVector_default N this st = Inr st0" and h0: "holds N st0 this []"
    and r0: "refuse st0 = refuse st" by blast
  from holds_obj[OF h0] obtain v0 where v0: "objs st0 this = Some v0" by blast
  from reserve_holds[OF h0 v0, of "of_nat (length vals)"] ok r0 obtain st1 where
    r: "reserve this (of_nat (length vals)) st0 = Inr st1" and h1: "holds N st1 this []"
    and r1: "refuse st1 = refuse st0" by auto
  from foreach_append_value_holds[OF h1, of vals] ok r0 r1 len obtain st2 where
    f: "foreach vals (append_value this) st1 = Inr st2" and h2: "holds N st2 this vals"
    and r2: "refuse st2 = refuse st1" by auto
  show ?thesis using d r f h2 r0 r1 r2 by (auto simp: SmallVector_init_def ebind_simps)
qed

section \<open>Removing\<close>

lemma map_Some_butlast_update:
  assumes "take (length xs) cs = map Some xs" "i < length xs" "length xs \<le> length cs"
  shows "take (length xs - 1) ((cs[i := Some (last xs)])[length xs - 1 := None]) =
         map Some (butlast (xs[i := last xs]))"
proof -
  have "take (length xs - 1) ((cs[i := Some (last xs)])[length xs - 1 := None]) =
        take (length xs - 1) (cs[i := Some (last xs)])" by simp
  also have "\<dots> = take (length xs - 1) (take (length xs) (cs[i := Some (last xs)]))"
    by (simp add: min_def)
  also have "take (length xs) (cs[i := Some (last xs)]) = (map Some xs)[i := Some (last xs)]"
    using assms by (simp add: take_update_swap)
  also have "\<dots> = map Some (xs[i := last xs])" by (simp add: map_update)
  also have "take (length xs - 1) \<dots> = map Some (butlast (xs[i := last xs]))"
    by (simp add: butlast_conv_take take_map)
  finally show ?thesis .
qed

lemma remove_and_reorder_ok:
  assumes h: "holds N st this xs" and i: "i < length xs"
  shows "\<exists>st'. remove_and_reorder this (of_nat i) st = Inr st' \<and>
     holds N st' this (butlast (xs[i := last xs])) \<and>
     constructions st' = constructions st \<and> destructions st' = Suc (destructions st) \<and>
     (\<exists>v' cs'. objs st' this = Some v' \<and> mem st' (m_elements v') = Some cs' \<and>
        cs' ! (length xs - 1) = None)"
proof -
  from h obtain v cs where v: "objs st this = Some v"
    and cs: "mem st (m_elements v) = Some cs"
    and shape: "m_elements v = SmallBuf this \<and> m_capacity v = N \<or>
                (\<exists>b. m_elements v = HeapBlk b \<and> b < mallocs st \<and> N \<le> m_capacity v)"
    and len: "length cs = unat (m_capacity v)" "unat (m_size v) = length xs"
      "length xs \<le> length cs"
    and xs: "take (length xs) cs = map Some xs"
    unfolding holds_iff by auto
  define p where "p = m_elements v"
  define n where "n = length xs"
  have p: "p \<noteq> Null" using shape by (auto simp: p_def)
  have ui: "unat (of_nat i :: uint) = i" using unat_of_nat_uint[of i "m_size v"] i len by simp
  have nz: "m_size v \<noteq> 0" using i len by (auto simp: unat_eq_zero[symmetric])
  have um: "unat (m_size v - 1) = n - 1" using unat_minus_one[OF nz] len by (simp add: n_def)
  have r: "(of_nat i :: uint) < m_size v" using ui i len by (simp add: word_less_nat_alt)
  have lt: "(of_nat i :: uint) < m_size v - 1 \<longleftrightarrow> i < n - 1"
    using ui um by (simp add: word_less_nat_alt)
  have nth: "\<And>j. j < n \<Longrightarrow> cs ! j = Some (xs ! j)"
  proof -
    fix j assume j: "j < n"
    then have "cs ! j = take (length xs) cs ! j" by (simp add: n_def)
    then show "cs ! j = Some (xs ! j)" using xs j by (simp add: n_def)
  qed
  have lastx: "cs ! (n - 1) = Some (last xs)"
    using nth[of "n - 1"] i by (cases xs rule: rev_cases) (auto simp: n_def)
  define cs1 where "cs1 = (if i < n - 1 then cs[i := Some (last xs)] else cs)"
  define st1 where "st1 = (if i < n - 1 then st\<lparr>mem := (mem st)(p \<mapsto> cs1)\<rparr> else st)"
  have e1: "(if (of_nat i :: uint) < m_size v - 1
             then ebind (load p (unat (m_size v) - 1) st) (\<lambda>x. assign_at p (unat (of_nat i :: uint)) x st)
             else Inr st) = Inr st1"
    using cs p i len lastx nth[of i] ui
    by (auto simp: lt st1_def cs1_def load_def assign_at_def ebind_simps p_def n_def)
  have o1: "objs st1 this = Some v" using v by (simp add: st1_def)
  have m1: "mem st1 p = Some cs1" using cs by (auto simp: st1_def cs1_def p_def)
  have l1: "length cs1 = length cs" by (simp add: cs1_def)
  have last1: "cs1 ! (n - 1) = Some (last xs)" using lastx by (auto simp: cs1_def)
  define st2 where "st2 = st1\<lparr>mem := (mem st1)(p \<mapsto> cs1[n - 1 := None]),
                              destructions := Suc (destructions st1)\<rparr>"
  have e2: "destruct_element this (m_size v - 1) st1 = Inr st2"
    using o1 m1 p um last1 l1 i len
    by (simp add: destruct_element_def destruct_at_def ebind_simps p_def[symmetric] st2_def n_def)
  define st3 where "st3 = st2\<lparr>objs := (objs st2)(this \<mapsto> v\<lparr>m_size := m_size v - 1\<rparr>)\<rparr>"
  have o2: "objs st2 this = Some v" using o1 by (simp add: st2_def)
  have res: "remove_and_reorder this (of_nat i) st = Inr st3"
    using v r e1 o1 e2 o2
    by (simp add: remove_and_reorder_def is_index_in_range_def BLI_assert_def ebind_simps
        p_def[symmetric] st3_def)
  have cs3: "cs1[n - 1 := None] = (cs[i := Some (last xs)])[n - 1 := None]"
  proof (cases "i < n - 1")
    case True
    then show ?thesis by (simp add: cs1_def)
  next
    case False
    then have "i = n - 1" using i by (simp add: n_def)
    then show ?thesis by (simp add: cs1_def)
  qed
  have m3: "mem st3 p = Some ((cs[i := Some (last xs)])[n - 1 := None])"
    using cs3 by (simp add: st3_def st2_def)
  have "holds N st3 this (butlast (xs[i := last xs]))"
    unfolding holds_iff
    using shape m3 len um map_Some_butlast_update[OF xs i len(3)]
    by (auto simp: st3_def st2_def st1_def p_def[symmetric] n_def)
  moreover have "constructions st3 = constructions st" "destructions st3 = Suc (destructions st)"
    by (simp_all add: st3_def st2_def st1_def)
  moreover have "\<exists>v' cs'. objs st3 this = Some v' \<and> mem st3 (m_elements v') = Some cs' \<and>
        cs' ! (length xs - 1) = None"
    using m3 i len by (simp add: st3_def p_def n_def)
  ultimately show ?thesis using res by blast
qed

lemma remove_and_reorder_out_of_range:
  assumes h: "holds N st this xs" and i: "length xs \<le> unat index"
  shows "remove_and_reorder this index st = Inl AssertFailed"
proof -
  from h obtain v where v: "objs st this = Some v" and len: "unat (m_size v) = length xs"
    unfolding holds_iff by auto
  have "\<not> index < m_size v" using i len by (simp add: word_less_nat_alt)
  then show ?thesis
    using v by (simp add: remove_and_reorder_def is_index_in_range_def BLI_assert_def ebind_simps)
qed

section \<open>Copy and move construction\<close>

lemma holds_live:
  assumes "take (length xs) cs = map Some xs" "length xs \<le> length cs"
  shows "\<forall>i<length xs. cs ! i \<noteq> None"
proof (intro allI impI)
  fix i assume i: "i < length xs"
  then have "cs ! i = take (length xs) cs ! i" by simp
  also have "\<dots> = Some (xs ! i)" using assms i by simp
  finally show "cs ! i \<noteq> None" by simp
qed

lemma SmallVector_copy_ok:
  assumes h: "holds N st other xs" and o: "objs st other = Some ov"
    and ne: "this \<noteq> other" and ok: "\<not> refuse st (mallocs st)"
  shows "\<exists>st'. SmallVector_copy N this other st = Inr st' \<and>
     holds N st' this xs \<and> holds N st' other xs \<and>
     objs st' = (objs st)(this \<mapsto>
        \<lparr>m_elements = (if m_elements ov = SmallBuf other then SmallBuf this
                        else HeapBlk (mallocs st)),
         m_size = m_size ov, m_capacity = m_capacity ov\<rparr>) \<and>
     mallocs st' = (if m_elements ov = SmallBuf other then mallocs st else Suc (mallocs st)) \<and>
     refuse st' = refuse st \<and>
     constructions st' = constructions st + length xs \<and>
     destructions st' = destructions st"
proof -
  define p where "p = m_elements ov"
  define n where "n = unat (m_size ov)"
  define k where "k = mallocs st"
  from h o obtain cs where cs: "mem st p = Some cs"
    and shape: "p = SmallBuf other \<and> m_capacity ov = N \<or>
                (\<exists>b. p = HeapBlk b \<and> b < k \<and> N \<le> m_capacity ov)"
    and len: "length cs = unat (m_capacity ov)" "n = length xs" "length xs \<le> length cs"
    and xs: "take (length xs) cs = map Some xs"
    unfolding holds_iff p_def n_def k_def by auto
  have live: "\<forall>i<n. cs ! i \<noteq> None" using holds_live[OF xs len(3)] len by simp
  define q where "q = (if p = SmallBuf other then SmallBuf this else HeapBlk k)"
  define st0 where "st0 = new_object N this st"
  define st1 where "st1 = (if p = SmallBuf other then st0
     else st0\<lparr>mem := (mem st0)(HeapBlk k \<mapsto> replicate (unat (m_capacity ov)) None),
            mallocs := Suc k\<rparr>)"
  define st2 where "st2 = st1\<lparr>objs := (objs st1)(this \<mapsto>
      \<lparr>m_elements = q, m_size = 0, m_capacity = N\<rparr>)\<rparr>"
  define ds where "ds = (if p = SmallBuf other then replicate (unat N) None
      else replicate (unat (m_capacity ov)) (None :: 'a option))"
  define st3 where "st3 = st2\<lparr>mem := (mem st2)(q \<mapsto> take n cs @ drop n ds),
      constructions := constructions st2 + n\<rparr>"
  define st4 where "st4 = st3\<lparr>objs := (objs st3)(this \<mapsto>
      \<lparr>m_elements = q, m_size = m_size ov, m_capacity = m_capacity ov\<rparr>)\<rparr>"
  have pq: "p \<noteq> q" "p \<noteq> Null" "q \<noteq> Null" "p \<noteq> SmallBuf this"
    using shape ne by (auto simp: q_def)
  have o0: "objs st0 other = Some ov"
    "objs st0 this = Some \<lparr>m_elements = Null, m_size = 0, m_capacity = N\<rparr>"
    using o ne by (simp_all add: st0_def new_object_def)
  have e1: "(if p = SmallBuf other
         then assign_member (\<lambda>v. v\<lparr>m_elements := small_buffer this\<rparr>) this st0
         else ebind (member m_capacity other st0) (\<lambda>cap.
              case malloc (unat cap) st0 of (p, st1) \<Rightarrow>
                assign_member (\<lambda>v. v\<lparr>m_elements := p\<rparr>) this st1)) = Inr st2"
    using o0 ok
    by (auto simp: st2_def st1_def q_def small_buffer_def ebind_simps malloc_def
        st0_def new_object_def k_def)
  have o2: "objs st2 other = Some ov"
    "objs st2 this = Some \<lparr>m_elements = q, m_size = 0, m_capacity = N\<rparr>"
    using o0 ne by (simp_all add: st2_def st1_def)
  have m2: "mem st2 p = Some cs" "mem st2 q = Some ds"
    using cs pq shape ne
    by (auto simp: st2_def st1_def st0_def new_object_def q_def ds_def)
  have nds: "n \<le> length ds" using len shape by (auto simp: ds_def)
  have e3: "uninitialized_copy p n q st2 = Inr st3"
    unfolding st3_def
    by (rule uninitialized_copy_ok[OF m2 pq(1) pq(2) pq(3)]) (use len nds live in auto)
  have o3: "objs st3 other = Some ov"
    "objs st3 this = Some \<lparr>m_elements = q, m_size = 0, m_capacity = N\<rparr>"
    using o2 by (simp_all add: st3_def)
  have res: "SmallVector_copy N this other st = Inr st4"
    using o0 e1 o2 e3 o3 ne
    by (simp add: SmallVector_copy_def copy_from_other_def is_small_def small_buffer_def
        ebind_simps st0_def[symmetric] p_def[symmetric] n_def[symmetric] st4_def)
  have o4: "objs st4 = (objs st)(this \<mapsto>
        \<lparr>m_elements = q, m_size = m_size ov, m_capacity = m_capacity ov\<rparr>)"
    by (auto simp: st4_def st3_def st2_def st1_def st0_def new_object_def fun_eq_iff)
  have m4: "mem st4 q = Some (take n cs @ drop n ds)" "mem st4 p = Some cs"
    using pq m2 by (simp_all add: st4_def st3_def)
  have r4: "refuse st4 = refuse st"
    "mallocs st4 = (if p = SmallBuf other then k else Suc k)"
    "constructions st4 = constructions st + n" "destructions st4 = destructions st"
    by (simp_all add: st4_def st3_def st2_def st1_def st0_def new_object_def k_def)
  have lds: "length ds = unat (m_capacity ov)" using shape by (auto simp: ds_def)
  have h1: "holds N st4 this xs"
    unfolding holds_iff using o4 m4 r4 shape len xs nds lds
    by (auto simp: q_def n_def)
  have h2: "holds N st4 other xs"
    unfolding holds_iff using o4 m4 r4 shape len xs o ne
    by (auto simp: n_def p_def)
  show ?thesis using res h1 h2 o4 r4 len by (auto simp: q_def p_def k_def)
qed

lemma SmallVector_move_ok:
  assumes h: "holds N st other xs" and o: "objs st other = Some ov"
    and ne: "this \<noteq> other"
  shows "\<exists>st'. SmallVector_move N this other st = Inr st' \<and>
     holds N st' this xs \<and>
     objs st' = (objs st)(this \<mapsto>
        \<lparr>m_elements = (if m_elements ov = SmallBuf other then SmallBuf this
                        else m_elements ov),
         m_size = m_size ov, m_capacity = m_capacity ov\<rparr>,
        other \<mapsto> ov\<lparr>m_elements := Null\<rparr>) \<and>
     mem st' (m_elements ov) = mem st (m_elements ov) \<and>
     mallocs st' = mallocs st \<and> refuse st' = refuse st \<and>
     constructions st' =
       constructions st + (if m_elements ov = SmallBuf other then length xs else 0) \<and>
     destructions st' = destructions st"
proof -
  define p where "p = m_elements ov"
  define n where "n = unat (m_size ov)"
  from h o obtain cs where cs: "mem st p = Some cs"
    and shape: "p = SmallBuf other \<and> m_capacity ov = N \<or>
                (\<exists>b. p = HeapBlk b \<and> b < mallocs st \<and> N \<le> m_capacity ov)"
    and len: "length cs = unat (m_capacity ov)" "n = length xs" "length xs \<le> length cs"
    and xs: "take (length xs) cs = map Some xs"
    unfolding holds_iff p_def n_def by auto
  have live: "\<forall>i<n. cs ! i \<noteq> None" using holds_live[OF xs len(3)] len by simp
  define q where "q = (if p = SmallBuf other then SmallBuf this else p)"
  define ds where "ds = replicate (unat N) (None :: 'a option)"
  define st0 where "st0 = new_object N this st"
  define st1 where "st1 = (if p = SmallBuf other
     then st0\<lparr>mem := (mem st0)(SmallBuf this \<mapsto> take n cs @ drop n ds),
             constructions := constructions st0 + n\<rparr>
     else st0)"
  define st2 where "st2 = st1\<lparr>objs := (objs st1)(this \<mapsto>
      \<lparr>m_elements = q, m_size = 0, m_capacity = N\<rparr>)\<rparr>"
  define st3 where "st3 = st2\<lparr>objs := (objs st2)(this \<mapsto>
      \<lparr>m_elements = q, m_size = m_size ov, m_capacity = m_capacity ov\<rparr>,
      other \<mapsto> ov\<lparr>m_elements := Null\<rparr>)\<rparr>"
  have pq: "p \<noteq> Null" "p \<noteq> SmallBuf this" using shape ne by auto
  have o0: "objs st0 other = Some ov"
    "objs st0 this = Some \<lparr>m_elements = Null, m_size = 0, m_capacity = N\<rparr>"
    using o ne by (simp_all add: st0_def new_object_def)
  have m0: "mem st0 p = Some cs" "mem st0 (SmallBuf this) = Some ds"
    using cs pq by (simp_all add: st0_def new_object_def ds_def)
  have nds: "p = SmallBuf other \<Longrightarrow> n \<le> length ds" using len shape by (auto simp: ds_def)
  have e0: "p = SmallBuf other \<Longrightarrow> uninitialized_copy p n (SmallBuf this) st0 = Inr st1"
    unfolding st1_def using uninitialized_copy_ok[OF m0(1) m0(2) pq(2) pq(1), of n] len nds live
    by simp
  have e1: "(if p = SmallBuf other
      then ebind (member m_elements other st0) (\<lambda>first.
           ebind (member m_size other st0) (\<lambda>n.
           ebind (uninitialized_copy first (unat n) (small_buffer this) st0) (\<lambda>st1.
           assign_member (\<lambda>v. v\<lparr>m_elements := small_buffer this\<rparr>) this st1)))
      else ebind (member m_elements other st0) (\<lambda>p.
           assign_member (\<lambda>v. v\<lparr>m_elements := p\<rparr>) this st0)) = Inr st2"
  proof (cases "p = SmallBuf other")
    case True
    have "objs st1 this = Some \<lparr>m_elements = Null, m_size = 0, m_capacity = N\<rparr>"
      using o0 by (simp add: st1_def)
    then show ?thesis using True o0 e0[OF True]
      by (simp add: ebind_simps small_buffer_def p_def[symmetric] n_def[symmetric] st2_def q_def)
  next
    case False
    then show ?thesis using o0
      by (simp add: ebind_simps p_def[symmetric] st2_def st1_def q_def)
  qed
  have o2: "objs st2 other = Some ov"
    "objs st2 this = Some \<lparr>m_elements = q, m_size = 0, m_capacity = N\<rparr>"
    using o0 ne by (simp_all add: st2_def st1_def)
  have res: "SmallVector_move N this other st = Inr st3"
    using o0 e1 o2 ne
    by (simp add: SmallVector_move_def steal_from_other_def is_small_def small_buffer_def
        ebind_simps st0_def[symmetric] p_def[symmetric] st3_def)
  have o3: "objs st3 = (objs st)(this \<mapsto>
        \<lparr>m_elements = q, m_size = m_size ov, m_capacity = m_capacity ov\<rparr>,
        other \<mapsto> ov\<lparr>m_elements := Null\<rparr>)"
    by (auto simp: st3_def st2_def st1_def st0_def new_object_def fun_eq_iff)
  have m3: "mem st3 q = Some (if p = SmallBuf other then take n cs @ drop n ds else cs)"
    "mem st3 p = Some cs"
    using pq m0 by (auto simp: st3_def st2_def st1_def q_def)
  have r3: "refuse st3 = refuse st" "mallocs st3 = mallocs st"
    "constructions st3 = constructions st + (if p = SmallBuf other then n else 0)"
    "destructions st3 = destructions st"
    by (simp_all add: st3_def st2_def st1_def st0_def new_object_def)
  have h1: "holds N st3 this xs"
    unfolding holds_iff using o3 m3 r3 shape len xs nds ne
    by (auto simp: q_def n_def ds_def)
  show ?thesis using res h1 o3 r3 len m3 cs by (auto simp: q_def p_def)
qed

section \<open>Removing the last element, and inline construction\<close>

lemma remove_last_ok:
  assumes h: "holds N st this xs" and v: "objs st this = Some v" and ne: "xs \<noteq> []"
  shows "\<exists>st'. remove_last this st = Inr st' \<and> holds N st' this (butlast xs) \<and>
     objs st' = (objs st)(this \<mapsto> v\<lparr>m_size := m_size v - 1\<rparr>) \<and>
     mallocs st' = mallocs st \<and> refuse st' = refuse st \<and>
     constructions st' = constructions st \<and> destructions st' = Suc (destructions st)"
proof -
  define p where "p = m_elements v"
  define n where "n = length xs"
  from h v obtain cs where cs: "mem st p = Some cs"
    and shape: "p = SmallBuf this \<and> m_capacity v = N \<or>
                (\<exists>b. p = HeapBlk b \<and> b < mallocs st \<and> N \<le> m_capacity v)"
    and len: "length cs = unat (m_capacity v)" "unat (m_size v) = n" "n \<le> length cs"
    and xs: "take n cs = map Some xs"
    unfolding holds_iff p_def n_def by auto
  have p: "p \<noteq> Null" using shape by auto
  have n0: "0 < n" using ne by (simp add: n_def)
  have nz: "m_size v \<noteq> 0" using n0 len by (auto simp: unat_eq_zero[symmetric])
  have um: "unat (m_size v - 1) = n - 1" using unat_minus_one[OF nz] len by simp
  have live: "\<forall>i<n. cs ! i \<noteq> None" using holds_live[of xs cs] xs len by (simp add: n_def)
  have "cs ! (n - 1) \<noteq> None" using live n0 by simp
  then obtain x where x: "cs ! (n - 1) = Some x" by (cases "cs ! (n - 1)") auto
  define st' where "st' = st\<lparr>mem := (mem st)(p \<mapsto> cs[n - 1 := None]),
      destructions := Suc (destructions st),
      objs := (objs st)(this \<mapsto> v\<lparr>m_size := m_size v - 1\<rparr>)\<rparr>"
  have res: "remove_last this st = Inr st'"
    using v nz cs p um x n0 len
    by (simp add: remove_last_def empty_sv_def size_sv_def BLI_assert_def ebind_simps
        destruct_element_def destruct_at_def p_def[symmetric] st'_def)
  have "take (n - 1) (cs[n - 1 := None]) = map Some (butlast xs)"
  proof -
    have "take (n - 1) (cs[n - 1 := None]) = take (n - 1) (take n cs)" by (simp add: min_def)
    also have "\<dots> = take (n - 1) (map Some xs)" by (simp only: xs)
    also have "\<dots> = map Some (butlast xs)"
      by (simp add: butlast_conv_take take_map n_def)
    finally show ?thesis .
  qed
  then have "holds N st' this (butlast xs)"
    unfolding holds_iff using shape cs len um
    by (auto simp: st'_def p_def[symmetric] n_def)
  then show ?thesis using res by (auto simp: st'_def)
qed

lemma remove_last_empty:
  "holds N st this [] \<Longrightarrow> remove_last this st = Inl AssertFailed"
  unfolding holds_iff
  by (auto simp: remove_last_def empty_sv_def size_sv_def BLI_assert_def ebind_simps unat_eq_zero)

lemma remove_last_repeat:
  "holds N st this xs \<Longrightarrow> objs st this = Some v \<Longrightarrow> k \<le> length xs \<Longrightarrow>
   \<exists>st' v'. foreach [0..<k] (\<lambda>i. remove_last this) st = Inr st' \<and>
     holds N st' this (take (length xs - k) xs) \<and> objs st' this = Some v' \<and>
     m_elements v' = m_elements v \<and> m_capacity v' = m_capacity v \<and>
     mallocs st' = mallocs st"
proof (induction k)
  case 0
  then show ?case by (intro exI[of _ st] exI[of _ v]) simp
next
  case (Suc k)
  then obtain st1 v1 where f: "foreach [0..<k] (\<lambda>i. remove_last this) st = Inr st1"
    and h1: "holds N st1 this (take (length xs - k) xs)" and v1: "objs st1 this = Some v1"
    and r1: "m_elements v1 = m_elements v" "m_capacity v1 = m_capacity v"
      "mallocs st1 = mallocs st" by auto
  have ne: "take (length xs - k) xs \<noteq> []" using Suc.prems by auto
  from remove_last_ok[OF h1 v1 ne] obtain st2 where
    r: "remove_last this st1 = Inr st2"
    and h2: "holds N st2 this (butlast (take (length xs - k) xs))"
    and o2: "objs st2 = (objs st1)(this \<mapsto> v1\<lparr>m_size := m_size v1 - 1\<rparr>)"
    and m2: "mallocs st2 = mallocs st1" by blast
  have "butlast (take (length xs - k) xs) = take (length xs - Suc k) xs"
    using Suc.prems by (simp add: butlast_take)
  then show ?case using f r h2 o2 m2 r1
    by (auto simp: foreach_upt_Suc ebind_simps simp del: upt_Suc)
qed

lemma holds_heap_mode:
  "holds N st this xs \<Longrightarrow> unat N < length xs \<Longrightarrow>
   \<exists>v b. objs st this = Some v \<and> m_elements v = HeapBlk b"
  unfolding holds_iff by auto

lemma SmallVector_sized_inline:
  assumes "count \<le> N"
  shows "\<exists>st'. SmallVector_sized N d count this st = Inr st' \<and>
     holds N st' this (replicate (unat count) d) \<and>
     objs st' this = Some \<lparr>m_elements = SmallBuf this, m_size = count, m_capacity = N\<rparr> \<and>
     mallocs st' = mallocs st"
proof -
  from SmallVector_default_holds[of N this st] obtain st0 where
    d: "SmallVector_default N this st = Inr st0" and h0: "holds N st0 this []"
    and o0: "objs st0 = (objs st)(this \<mapsto> \<lparr>m_elements = SmallBuf this, m_size = 0, m_capacity = N\<rparr>)"
    and r0: "mallocs st0 = mallocs st" by blast
  define v0 where "v0 = \<lparr>m_elements = SmallBuf this, m_size = 0, m_capacity = N\<rparr>"
  have v0: "objs st0 this = Some v0" by (simp add: o0 v0_def)
  have r: "reserve this count st0 = Inr st0"
    using grow_noop[OF v0, of count] assms by (simp add: reserve_def v0_def)
  have "length ([]::'a list) + length (replicate (unat count) d) \<le> unat (m_capacity v0)"
    using assms by (simp add: v0_def word_le_nat_alt)
  from foreach_append_value_room[OF h0 v0 this] obtain st2 v2 where
    f: "foreach (replicate (unat count) d) (append_value this) st0 = Inr st2"
    and h2: "holds N st2 this (replicate (unat count) d)"
    and v2: "objs st2 this = Some v2" "m_elements v2 = m_elements v0"
      "m_capacity v2 = m_capacity v0"
    and r2: "mallocs st2 = mallocs st0" by auto
  have "unat (m_size v2) = unat count"
    using holds_size_le_capacity[OF h2 v2(1)] by simp
  then have s2: "m_size v2 = count" by (simp only: word_unat_eq_iff)
  have "v2 = \<lparr>m_elements = SmallBuf this, m_size = count, m_capacity = N\<rparr>"
    using v2 s2 by (cases v2) (simp add: v0_def)
  moreover have "SmallVector_sized N d count this st = Inr st2"
    using d r f by (simp add: SmallVector_sized_def ebind_simps foreach_const)
  ultimately show ?thesis using h2 v2 r0 r2 by auto
qed

lemma SmallVector_init_inline:
  assumes "length vals \<le> unat N"
  shows "\<exists>st'. SmallVector_init N vals this st = Inr st' \<and> holds N st' this vals \<and>
     objs st' this = Some \<lparr>m_elements = SmallBuf this, m_size = of_nat (length vals),
                           m_capacity = N\<rparr> \<and>
     mallocs st' = mallocs st"
proof -
  from SmallVector_default_holds[of N this st] obtain st0 where
    d: "SmallVector_default N this st = Inr st0" and h0: "holds N st0 this []"
    and o0: "objs st0 = (objs st)(this \<mapsto> \<lparr>m_elements = SmallBuf this, m_size = 0, m_capacity = N\<rparr>)"
    and r0: "mallocs st0 = mallocs st" by blast
  define v0 where "v0 = \<lparr>m_elements = SmallBuf this, m_size = 0, m_capacity = N\<rparr>"
  have v0: "objs st0 this = Some v0" by (simp add: o0 v0_def)
  have u: "unat (of_nat (length vals) :: uint) = length vals"
    using le_unat_uoi[OF assms] .
  then have "(of_nat (length vals) :: uint) \<le> N" using assms by (simp add: word_le_nat_alt)
  then have r: "reserve this (of_nat (length vals)) st0 = Inr st0"
    using grow_noop[OF v0, of "of_nat (length vals)"] by (simp add: reserve_def v0_def)
  have "length ([]::'a list) + length vals \<le> unat (m_capacity v0)"
    using assms by (simp add: v0_def)
  from foreach_append_value_room[OF h0 v0 this] obtain st2 v2 where
    f: "foreach vals (append_value this) st0 = Inr st2"
    and h2: "holds N st2 this vals"
    and v2: "objs st2 this = Some v2" "m_elements v2 = m_elements v0"
      "m_capacity v2 = m_capacity v0"
    and r2: "mallocs st2 = mallocs st0" by auto
  have "unat (m_size v2) = unat (of_nat (length vals) :: uint)"
    using holds_size_le_capacity[OF h2 v2(1)] u by simp
  then have s2: "m_size v2 = of_nat (length vals)" by (simp only: word_unat_eq_iff)
  have "v2 = \<lparr>m_elements = SmallBuf this, m_size = of_nat (length vals), m_capacity = N\<rparr>"
    using v2 s2 by (cases v2) (simp add: v0_def)
  moreover have "SmallVector_init N vals this st = Inr st2"
    using d r f by (simp add: SmallVector_init_def ebind_simps)
  ultimately show ?thesis using h2 v2 r0 r2 by auto
qed

section \<open>Evaluating concrete runs\<close>

text \<open>The defining equations of the whole model, for running it on concrete inputs.\<close>

lemmas sv_defs =
  SmallVector_init_def SmallVector_default_def SmallVector_move_def SmallVector_copy_def
  SmallVector_sized_def new_object_def delete_object_def destructor_def copy_assign_def
  move_assign_def reserve_def grow_def ensure_space_for_one_def append_value_def append_ref_def
  copy_from_other_def steal_from_other_def destruct_elements_and_free_memory_def
  destruct_elements_but_keep_memory_def destruct_element_def is_small_def small_buffer_def
  uninitialized_copy_def load_def construct_at_def destruct_at_def assign_at_def cells_def
  malloc_def free_def member_def assign_member_def ebind_simps st_empty_def st_oom_after_def
  size_sv_def empty_sv_def BLI_assert_def remove_last_def remove_and_reorder_def fill_def
  extend_sv_def is_index_in_range_def operator_index_def

lemma replicate_numeral_Cons: "replicate (numeral k) x = x # replicate (pred_numeral k) x"
  by (simp add: numeral_eq_Suc)

lemmas sv_eval = sv_defs upt_rec word_le_nat_alt word_less_nat_alt replicate_numeral_Cons

section \<open>The claims\<close>

text \<open>
  Appending and reading back, as far as it goes. Take a default-constructed container and
  append the values \<open>vs\<close> one by one, each a value that lives outside the container. When
  the allocator grants every request and there are at most \<open>2^31\<close> values, the run completes,
  \<open>size()\<close> returns the number of values appended, and \<open>operator[]\<close> at each position
  \<open>i\<close> below that number returns the \<open>i\<close>-th appended value. What happens past \<open>2^31\<close>
  values is the subject of section \<open>Capacity\<close>.
\<close>

theorem appends_read_back:
  assumes "\<forall>k. \<not> refuse st k" and "length vs \<le> 2 ^ 31"
  shows "\<exists>st' n. ebind (SmallVector_default N this st) (foreach vs (append_value this)) = Inr st' \<and>
     size_sv this st' = Inr n \<and> unat n = length vs \<and>
     (\<forall>i<length vs. operator_index this (of_nat i) st' = Inr (vs ! i))"
proof -
  from SmallVector_default_holds[of N this st] obtain st0 where
    d: "SmallVector_default N this st = Inr st0" and h0: "holds N st0 this []"
    and r0: "refuse st0 = refuse st" by blast
  from foreach_append_value_holds[OF h0, of vs] assms r0 obtain st' where
    f: "foreach vs (append_value this) st0 = Inr st'" and h: "holds N st' this vs"
    by auto
  from holds_size[OF h] obtain n where n: "size_sv this st' = Inr n" "unat n = length vs"
    by blast
  have "\<forall>i<length vs. operator_index this (of_nat i) st' = Inr (vs ! i)"
    using holds_nth[OF h] assms(2) by auto
  then show ?thesis using d f n by (auto simp: ebind_simps)
qed

text \<open>The run of five appends on a \<open>SmallVector<T, 4>\<close>, which grows once.\<close>

theorem appends_read_back_example:
  "(\<forall>k. \<not> refuse (st_empty :: nat state) k) \<and> length [10, 20, 30, 40, 50 :: nat] \<le> 2 ^ 31 \<and>
   (\<exists>st' n. ebind (SmallVector_default 4 0 st_empty)
               (foreach [10, 20, 30, 40, 50 :: nat] (append_value 0)) = Inr st' \<and>
      size_sv 0 st' = Inr n \<and> unat n = 5 \<and>
      operator_index 0 0 st' = Inr 10 \<and> operator_index 0 4 st' = Inr 50)"
proof -
  have r: "\<forall>k. \<not> refuse (st_empty :: nat state) k" by (simp add: st_empty_def)
  have l: "length [10, 20, 30, 40, 50 :: nat] \<le> 2 ^ 31" by simp
  from appends_read_back[OF r l, of 4 0] obtain st' n where
    e: "ebind (SmallVector_default 4 0 st_empty)
               (foreach [10, 20, 30, 40, 50 :: nat] (append_value 0)) = Inr st'"
    and n: "size_sv 0 st' = Inr n" "unat n = length [10, 20, 30, 40, 50 :: nat]"
    and a: "\<forall>i<length [10, 20, 30, 40, 50 :: nat].
              operator_index 0 (of_nat i) st' = Inr ([10, 20, 30, 40, 50 :: nat] ! i)"
    by blast
  have "operator_index 0 (of_nat 0) st' = Inr ([10, 20, 30, 40, 50 :: nat] ! 0)"
    using a[rule_format, of 0] by simp
  moreover have "operator_index 0 (of_nat 4) st' = Inr ([10, 20, 30, 40, 50 :: nat] ! 4)"
    using a[rule_format, of 4] by simp
  ultimately show ?thesis using r l e n by simp
qed

lemma unat_eq_D: "unat (w :: uint) = k \<Longrightarrow> w = of_nat k"
  by auto

text \<open>
  Claim C8. For a container holding \<open>xs\<close> and an index \<open>i\<close> below its length,
  \<open>remove_and_reorder\<close> completes: the elements afterwards are \<open>xs\<close> with the last
  element written over position \<open>i\<close> and the last position dropped, exactly one element
  is destructed, and the slot that held the last element is raw storage again. An index at
  or beyond the length fails the assertion. On \<open>[x0, x1, x2, x3]\<close> with index 1 the result
  is \<open>[x0, x3, x2]\<close> with size 3.
\<close>

theorem remove_and_reorder_spec:
  assumes "holds N st this xs"
  shows "(\<forall>i<length xs. \<exists>st'. remove_and_reorder this (of_nat i) st = Inr st' \<and>
            holds N st' this (butlast (xs[i := last xs])) \<and>
            constructions st' = constructions st \<and>
            destructions st' = Suc (destructions st) \<and>
            (\<exists>v' cs'. objs st' this = Some v' \<and> mem st' (m_elements v') = Some cs' \<and>
               cs' ! (length xs - 1) = None)) \<and>
         (\<forall>index. length xs \<le> unat index \<longrightarrow>
            remove_and_reorder this index st = Inl AssertFailed) \<and>
         (\<forall>x0 x1 x2 x3. xs = [x0, x1, x2, x3] \<longrightarrow>
            (\<exists>st'. remove_and_reorder this 1 st = Inr st' \<and> holds N st' this [x0, x3, x2] \<and>
               size_sv this st' = Inr 3))"
proof (intro conjI allI impI)
  fix i assume "i < length xs"
  from remove_and_reorder_ok[OF assms this]
  show "\<exists>st'. remove_and_reorder this (of_nat i) st = Inr st' \<and>
            holds N st' this (butlast (xs[i := last xs])) \<and>
            constructions st' = constructions st \<and>
            destructions st' = Suc (destructions st) \<and>
            (\<exists>v' cs'. objs st' this = Some v' \<and> mem st' (m_elements v') = Some cs' \<and>
               cs' ! (length xs - 1) = None)" .
next
  fix index :: uint assume "length xs \<le> unat index"
  from remove_and_reorder_out_of_range[OF assms this]
  show "remove_and_reorder this index st = Inl AssertFailed" .
next
  fix x0 x1 x2 x3 assume xs: "xs = [x0, x1, x2, x3]"
  then have "1 < length xs" by simp
  from remove_and_reorder_ok[OF assms this] xs obtain st' where
    r: "remove_and_reorder this 1 st = Inr st'" and h: "holds N st' this [x0, x3, x2]"
    by auto
  from holds_size[OF h] obtain n where n: "size_sv this st' = Inr n" "unat n = 3" by auto
  then have "n = 3" using unat_eq_D[of n 3] by simp
  with r h n show "\<exists>st'. remove_and_reorder this 1 st = Inr st' \<and>
      holds N st' this [x0, x3, x2] \<and> size_sv this st' = Inr 3" by blast
qed


text \<open>The example of the specification on a container built from \<open>{10, 20, 30, 40}\<close>.\<close>

theorem remove_and_reorder_spec_witness:
  "\<exists>st1 st'. SmallVector_init 4 [10, 20, 30, 40 :: nat] 0 st_empty = Inr st1 \<and>
     holds 4 st1 0 [10, 20, 30, 40] \<and>
     remove_and_reorder 0 1 st1 = Inr st' \<and> holds 4 st' 0 [10, 40, 30] \<and>
     size_sv 0 st' = Inr 3 \<and>
     remove_and_reorder 0 4 st1 = Inl AssertFailed"
proof -
  have "\<forall>k. \<not> refuse (st_empty :: nat state) k" by (simp add: st_empty_def)
  from SmallVector_init_holds[OF this, of "[10, 20, 30, 40]" 4 0] obtain st1 where
    i: "SmallVector_init 4 [10, 20, 30, 40 :: nat] 0 st_empty = Inr st1"
    and h: "holds 4 st1 0 [10, 20, 30, 40]" by auto
  note spec = remove_and_reorder_spec[OF h]
  from spec have "\<exists>st'. remove_and_reorder 0 1 st1 = Inr st' \<and> holds 4 st' 0 [10, 40, 30] \<and>
      size_sv 0 st' = Inr 3" by blast
  moreover from spec have "remove_and_reorder 0 4 st1 = Inl AssertFailed" by simp
  ultimately show ?thesis using i h by blast
qed

section \<open>Capacity\<close>

lemma double_exact: "unat (c::uint) < 2 ^ 31 \<Longrightarrow> unat (max (c * 2) 1) = max (2 * unat c) 1"
proof -
  assume c: "unat c < 2 ^ 31"
  have "unat (c * 2) = (unat c * 2) mod 2 ^ 32"
    by (simp add: unat_word_ariths)
  also have "\<dots> = unat c * 2" using c by simp
  finally have d: "unat (c * 2) = 2 * unat c" by simp
  show ?thesis
  proof (cases "c = 0")
    case True
    then show ?thesis by simp
  next
    case False
    then have "0 < unat c" by (simp add: unat_gt_0)
    then have "1 \<le> c * 2" using d by (simp add: word_le_nat_alt)
    then show ?thesis using d \<open>0 < unat c\<close> by (simp add: max_def)
  qed
qed

lemma append_value_step:
  assumes h: "holds N st this xs" and v: "objs st this = Some v"
    and ok: "\<not> refuse st (mallocs st)" and small: "length xs < 2 ^ 31"
  shows "\<exists>st' v'. append_value this x st = Inr st' \<and> holds N st' this (xs @ [x]) \<and>
     objs st' this = Some v' \<and> m_size v' = m_size v + 1 \<and>
     m_capacity v' = (if m_size v < m_capacity v then m_capacity v
                      else max (m_capacity v * 2) 1) \<and>
     refuse st' = refuse st"
proof -
  note sz = holds_size_le_capacity[OF h v]
  show ?thesis
  proof (cases "m_size v < m_capacity v")
    case True
    from append_value_room[OF h v True, of x] True show ?thesis by auto
  next
    case False
    then have full: "m_capacity v \<le> m_size v" by simp
    then have "unat (m_capacity v) \<le> length xs" using sz by (simp add: word_le_nat_alt)
    then have c: "unat (m_capacity v) < 2 ^ 31" using small by simp
    from append_value_grow[OF h v full c ok, of x] False show ?thesis by auto
  qed
qed

lemma appends_capacity:
  assumes ok: "\<forall>k. \<not> refuse st k"
  shows "length vs \<le> 2 ^ 31 \<Longrightarrow>
     \<exists>st' v'. ebind (SmallVector_default N this st) (foreach vs (append_value this)) = Inr st' \<and>
       holds N st' this vs \<and> objs st' this = Some v' \<and>
       m_size v' = of_nat (length vs) \<and> m_capacity v' = capacity_after N (length vs) \<and>
       refuse st' = refuse st"
proof (induction vs rule: rev_induct)
  case Nil
  from SmallVector_default_holds[of N this st] show ?case by (auto simp: ebind_simps)
next
  case (snoc x vs)
  then obtain st1 v1 where
    r: "ebind (SmallVector_default N this st) (foreach vs (append_value this)) = Inr st1"
    and h1: "holds N st1 this vs" and v1: "objs st1 this = Some v1"
    and s1: "m_size v1 = of_nat (length vs)" "m_capacity v1 = capacity_after N (length vs)"
    and r1: "refuse st1 = refuse st" by auto
  have "length vs < 2 ^ 31" using snoc.prems by simp
  from append_value_step[OF h1 v1 _ this, of x] ok r1 obtain st2 v2 where
    a: "append_value this x st1 = Inr st2" and h2: "holds N st2 this (vs @ [x])"
    and v2: "objs st2 this = Some v2" and s2: "m_size v2 = m_size v1 + 1"
      "m_capacity v2 = (if m_size v1 < m_capacity v1 then m_capacity v1
                         else max (m_capacity v1 * 2) 1)"
    and r2: "refuse st2 = refuse st1" by auto
  obtain st0 where d: "SmallVector_default N this st = Inr st0"
    using SmallVector_default_holds[of N this st] by blast
  have "ebind (SmallVector_default N this st) (foreach (vs @ [x]) (append_value this)) = Inr st2"
    using r a d by (simp add: ebind_simps foreach_append)
  then show ?case using h2 v2 s2 s1 r1 r2 by (auto simp: ebind_simps)
qed

lemma capacity_after_4:
  "capacity_after 4 4 = 4" "capacity_after 4 5 = 8" "capacity_after 4 8 = 8"
  "capacity_after 4 9 = 16"
  by code_simp+

lemma SmallVector_sized_holds:
  assumes ok: "\<forall>k. \<not> refuse st k"
  shows "\<exists>st' v'. SmallVector_sized N d count this st = Inr st' \<and>
     holds N st' this (replicate (unat count) d) \<and> objs st' this = Some v' \<and>
     m_size v' = count \<and> m_capacity v' = max N count \<and>
     m_elements v' = (if count \<le> N then SmallBuf this else HeapBlk (mallocs st)) \<and>
     mallocs st' = (if count \<le> N then mallocs st else Suc (mallocs st)) \<and>
     refuse st' = refuse st"
proof -
  from SmallVector_default_holds[of N this st] obtain st0 where
    d: "SmallVector_default N this st = Inr st0" and h0: "holds N st0 this []"
    and o0: "objs st0 = (objs st)(this \<mapsto> \<lparr>m_elements = SmallBuf this, m_size = 0, m_capacity = N\<rparr>)"
    and r0: "refuse st0 = refuse st" "mallocs st0 = mallocs st" by blast
  define v0 where "v0 = \<lparr>m_elements = SmallBuf this, m_size = 0, m_capacity = N\<rparr>"
  have v0: "objs st0 this = Some v0" by (simp add: o0 v0_def)
  from reserve_holds[OF h0 v0, of count] ok r0 obtain st1 where
    r: "reserve this count st0 = Inr st1" and h1: "holds N st1 this []"
    and o1: "objs st1 = (if count \<le> m_capacity v0 then objs st0
                 else (objs st0)(this \<mapsto> \<lparr>m_elements = HeapBlk (mallocs st0),
                                        m_size = m_size v0, m_capacity = count\<rparr>))"
    and r1: "refuse st1 = refuse st0"
      "mallocs st1 = (if count \<le> m_capacity v0 then mallocs st0 else Suc (mallocs st0))"
    by auto
  define v1 where "v1 = (if count \<le> N then v0
     else \<lparr>m_elements = HeapBlk (mallocs st), m_size = 0, m_capacity = count\<rparr>)"
  have v1: "objs st1 this = Some v1" using o1 v0 r0 by (simp add: v1_def v0_def)
  have c1: "m_capacity v1 = max N count" by (auto simp: v1_def v0_def max_def)
  have "length ([]::'a list) + length (replicate (unat count) d) \<le> unat (m_capacity v1)"
    by (simp add: c1 max_def word_le_nat_alt)
  from foreach_append_value_room[OF h1 v1 this] obtain st2 v2 where
    f: "foreach (replicate (unat count) d) (append_value this) st1 = Inr st2"
    and h2: "holds N st2 this (replicate (unat count) d)"
    and v2: "objs st2 this = Some v2" "m_elements v2 = m_elements v1"
      "m_capacity v2 = m_capacity v1"
    and r2: "refuse st2 = refuse st1" "mallocs st2 = mallocs st1" by auto
  have "unat (m_size v2) = unat count"
    using holds_size_le_capacity[OF h2 v2(1)] by simp
  then have s2: "m_size v2 = count" by (simp only: word_unat_eq_iff)
  have "SmallVector_sized N d count this st = Inr st2"
    using d r f by (simp add: SmallVector_sized_def ebind_simps foreach_const)
  then show ?thesis using h2 v2 s2 c1 r0 r1 r2 by (auto simp: v1_def v0_def)
qed

text \<open>
  Growth below the limit. Let the container be usable and the allocator grant every request.
  An append that finds the container full, with a capacity below \<open>2^31\<close>, completes and
  leaves the capacity at exactly \<open>max (2 * capacity) 1\<close>, computed without wrap-around.
  \<open>reserve m\<close> with \<open>m\<close> above the capacity leaves the capacity at exactly \<open>m\<close>, and
  with \<open>m\<close> at most the capacity it changes nothing. A default-constructed
  \<open>SmallVector<T, 4>\<close> has capacity 4 after up to four appends, 8 after the fifth up to
  the eighth, and 16 after the ninth.
\<close>

theorem growth_below_limit:
  assumes h: "holds N st this xs" and v: "objs st this = Some v"
    and ok: "\<forall>k. \<not> refuse st k"
  shows "(m_size v = m_capacity v \<and> unat (m_capacity v) < 2 ^ 31 \<longrightarrow>
            (\<exists>st' v'. append_value this x st = Inr st' \<and> objs st' this = Some v' \<and>
               m_capacity v' = max (m_capacity v * 2) 1 \<and>
               unat (m_capacity v') = max (2 * unat (m_capacity v)) 1)) \<and>
         (m_capacity v < m \<longrightarrow>
            (\<exists>st' v'. reserve this m st = Inr st' \<and> objs st' this = Some v' \<and>
               m_capacity v' = m)) \<and>
         (m \<le> m_capacity v \<longrightarrow> reserve this m st = Inr st) \<and>
         (\<forall>st0 vs. (\<forall>k. \<not> refuse st0 k) \<and> length vs \<le> 9 \<longrightarrow>
            (\<exists>st' v'. ebind (SmallVector_default 4 this st0) (foreach vs (append_value this)) = Inr st' \<and>
               objs st' this = Some v' \<and>
               m_capacity v' = (if length vs \<le> 4 then 4 else if length vs \<le> 8 then 8 else 16)))"
proof (intro conjI impI allI)
  assume a: "m_size v = m_capacity v \<and> unat (m_capacity v) < 2 ^ 31"
  then have full: "m_capacity v \<le> m_size v" and c: "unat (m_capacity v) < 2 ^ 31" by auto
  from append_value_grow[OF h v full c, of x] ok double_exact[OF c]
  show "\<exists>st' v'. append_value this x st = Inr st' \<and> objs st' this = Some v' \<and>
               m_capacity v' = max (m_capacity v * 2) 1 \<and>
               unat (m_capacity v') = max (2 * unat (m_capacity v)) 1"
    by auto
next
  assume "m_capacity v < m"
  then have "\<not> m \<le> m_capacity v" by simp
  with reserve_holds[OF h v, of m] ok
  show "\<exists>st' v'. reserve this m st = Inr st' \<and> objs st' this = Some v' \<and> m_capacity v' = m"
    by auto
next
  assume "m \<le> m_capacity v"
  then show "reserve this m st = Inr st" using grow_noop[OF v] by (simp add: reserve_def)
next
  fix st0 :: "'b state" and vs :: "'b list"
  assume a: "(\<forall>k. \<not> refuse st0 k) \<and> length vs \<le> 9"
  then have ok0: "\<forall>k. \<not> refuse st0 k" and l: "length vs \<le> 9" by auto
  have caps: "capacity_after 4 (length vs) =
      (if length vs \<le> 4 then 4 else if length vs \<le> 8 then 8 else 16)"
  proof -
    have "length vs = 0 \<or> length vs = 1 \<or> length vs = 2 \<or> length vs = 3 \<or>
      length vs = 4 \<or> length vs = 5 \<or> length vs = 6 \<or> length vs = 7 \<or>
      length vs = 8 \<or> length vs = 9" using l by arith
    moreover have "capacity_after 4 0 = 4" "capacity_after 4 1 = 4" "capacity_after 4 2 = 4"
      "capacity_after 4 3 = 4" "capacity_after 4 4 = 4" "capacity_after 4 5 = 8"
      "capacity_after 4 6 = 8" "capacity_after 4 7 = 8" "capacity_after 4 8 = 8"
      "capacity_after 4 9 = 16" by code_simp+
    ultimately show ?thesis by (elim disjE) simp_all
  qed
  have "length vs \<le> 2 ^ 31" using l by simp
  from appends_capacity[OF ok0 this, of 4 this] caps
  show "\<exists>st' v'. ebind (SmallVector_default 4 this st0) (foreach vs (append_value this)) = Inr st' \<and>
               objs st' this = Some v' \<and>
               m_capacity v' = (if length vs \<le> 4 then 4 else if length vs \<le> 8 then 8 else 16)"
    by auto
qed


text \<open>A full container of four elements: the next append, and two calls of \<open>reserve\<close>.\<close>

theorem growth_below_limit_example:
  "\<exists>st1 v. ebind (SmallVector_default 4 0 (st_empty :: nat state))
               (foreach [10, 20, 30, 40] (append_value 0)) = Inr st1 \<and>
     holds 4 st1 0 [10, 20, 30, 40] \<and> objs st1 0 = Some v \<and> (\<forall>k. \<not> refuse st1 k) \<and>
     m_size v = m_capacity v \<and> unat (m_capacity v) < 2 ^ 31 \<and> m_capacity v < 6 \<and>
     3 \<le> m_capacity v \<and>
     (\<exists>st' v'. append_value 0 50 st1 = Inr st' \<and> objs st' 0 = Some v' \<and> m_capacity v' = 8) \<and>
     (\<exists>st' v'. reserve 0 6 st1 = Inr st' \<and> objs st' 0 = Some v' \<and> m_capacity v' = 6) \<and>
     reserve 0 3 st1 = Inr st1"
proof -
  have ok: "\<forall>k. \<not> refuse (st_empty :: nat state) k" by (simp add: st_empty_def)
  have "length [10, 20, 30, 40 :: nat] \<le> 2 ^ 31" by simp
  from appends_capacity[OF ok this, of 4 0] obtain st1 v where
    r: "ebind (SmallVector_default 4 0 (st_empty :: nat state))
               (foreach [10, 20, 30, 40] (append_value 0)) = Inr st1"
    and h: "holds 4 st1 0 [10, 20, 30, 40]" and v: "objs st1 0 = Some v"
    and s: "m_size v = 4" and c: "m_capacity v = 4"
    and ok1: "refuse st1 = refuse (st_empty :: nat state)" by auto
  have ok1': "\<forall>k. \<not> refuse st1 k" using ok ok1 by simp
  note g = growth_below_limit[OF h v ok1']
  have "\<exists>st' v'. append_value 0 50 st1 = Inr st' \<and> objs st' 0 = Some v' \<and> m_capacity v' = 8"
    using g[of 50 6, THEN conjunct1] s c by auto
  moreover have "\<exists>st' v'. reserve 0 6 st1 = Inr st' \<and> objs st' 0 = Some v' \<and> m_capacity v' = 6"
    using g[of 50 6, THEN conjunct2, THEN conjunct1] c by auto
  moreover have "reserve 0 3 st1 = Inr st1"
    using g[of 50 3, THEN conjunct2, THEN conjunct2, THEN conjunct1] c by simp
  ultimately show ?thesis using r h v ok1' s c by auto
qed

subsection \<open>At the limit of \<open>uint\<close>\<close>

text \<open>
  Claim C7. \<open>ensure_space_for_one\<close> asks \<open>grow\<close> for \<open>max (m_capacity * 2) 1\<close>, with the
  product taken in 32-bit \<open>uint\<close>. \<open>SmallVector<T, 4> v(2147483648u)\<close> is full with size and
  capacity \<open>2^31\<close>; there \<open>m_capacity * 2\<close> wraps to 0, \<open>grow\<close> is asked for 1 and returns
  at once, so the capacity is still \<open>2^31\<close> and not \<open>max (2 * capacity) 1\<close>; \<open>append\<close> then
  constructs the new element one slot past the end of the storage, which is undefined
  behaviour.
\<close>

theorem doubling_wraps_at_limit:
  "ebind (SmallVector_sized 4 0 (2 ^ 31) 0 (st_empty :: nat state)) (member m_size 0) =
     Inr (2 ^ 31) \<and>
   ebind (SmallVector_sized 4 0 (2 ^ 31) 0 (st_empty :: nat state)) (member m_capacity 0) =
     Inr (2 ^ 31) \<and>
   ebind (SmallVector_sized 4 0 (2 ^ 31) 0 (st_empty :: nat state))
     (\<lambda>s. ebind (ensure_space_for_one 0 s) (member m_capacity 0)) = Inr (2 ^ 31) \<and>
   ebind (SmallVector_sized 4 0 (2 ^ 31) 0 (st_empty :: nat state)) (append_value 0 7) =
     Inl (UB OutOfBounds)"
proof -
  have ok: "\<forall>k. \<not> refuse (st_empty :: nat state) k" by (simp add: st_empty_def)
  from SmallVector_sized_holds[OF ok, of 4 0 "2 ^ 31" 0] obtain st1 v where
    r: "SmallVector_sized 4 0 (2 ^ 31) 0 (st_empty :: nat state) = Inr st1"
    and h: "holds 4 st1 0 (replicate (unat (2 ^ 31 :: uint)) 0)" and v: "objs st1 0 = Some v"
    and s: "m_size v = 2 ^ 31" "m_capacity v = max 4 (2 ^ 31)" by auto
  have c: "m_capacity v = 2 ^ 31" using s by simp
  have full: "m_capacity v \<le> m_size v" using s c by simp
  have big: "2 ^ 31 \<le> unat (m_capacity v)" using c by simp
  note o = append_value_overflow[OF h v full big]
  show ?thesis using r v s c o by (simp add: ebind_simps)
qed

text \<open>
  The capacity of a default-constructed \<open>SmallVector<T, 4>\<close> runs through the powers of two
  and is \<open>2^31\<close> after \<open>2^31\<close> appends.
\<close>

lemma capacity_after_pow2:
  "k \<le> 2 ^ 31 \<Longrightarrow> \<exists>j\<le>31. unat (capacity_after 4 k) = 2 ^ j \<and> k \<le> 2 ^ j"
proof (induction k)
  case 0
  have "unat (4 :: uint) = 2 ^ 2" by simp
  then show ?case by (intro exI[of _ 2]) simp
next
  case (Suc k)
  then obtain j where j: "j \<le> 31" and c: "unat (capacity_after 4 k) = 2 ^ j"
    and k: "k \<le> 2 ^ j" by auto
  have k31: "k < 2 ^ 31" using Suc.prems by simp
  have u: "unat (of_nat k :: uint) = k" using k31 by (simp add: unat_of_nat_small)
  show ?case
  proof (cases "of_nat k < capacity_after 4 k")
    case True
    then have "k < 2 ^ j" using c u by (simp add: word_less_nat_alt)
    then show ?thesis using True j c by (intro exI[of _ j]) simp
  next
    case False
    then have "2 ^ j \<le> k" using c u by (simp add: word_less_nat_alt)
    then have e: "k = 2 ^ j" using k by simp
    then have "(2::nat) ^ j < 2 ^ 31" using k31 by simp
    then have j31: "j < 31" by (simp only: power_strict_increasing_iff) 
    have "unat (capacity_after 4 k) < 2 ^ 31" using c e k31 by simp
    from double_exact[OF this]
    have "unat (max (capacity_after 4 k * 2) 1) = max (2 * 2 ^ j) 1" using c by simp
    also have "\<dots> = 2 ^ Suc j"
    proof -
      have "(1::nat) \<le> 2 ^ j" by simp
      then have "(1::nat) \<le> 2 * 2 ^ j" by arith
      then have "max (2 * 2 ^ j) (1::nat) = 2 * 2 ^ j" by (rule max_absorb1)
      then show ?thesis by simp
    qed
    finally have d: "unat (capacity_after 4 (Suc k)) = 2 ^ Suc j" using False by simp
    have "Suc k \<le> 2 ^ Suc j" using e by simp
    then show ?thesis using d j31 by (intro exI[of _ "Suc j"]) simp
  qed
qed

lemma capacity_after_limit: "capacity_after 4 (2 ^ 31) = 2 ^ 31"
proof -
  from capacity_after_pow2[of "2 ^ 31"] obtain j where j: "j \<le> 31"
    and c: "unat (capacity_after 4 (2 ^ 31)) = 2 ^ j" and k: "(2::nat) ^ 31 \<le> 2 ^ j"
    by auto
  from k have "31 \<le> j" by (simp only: power_increasing_iff) 
  then have "j = 31" using j by simp
  then have "unat (capacity_after 4 (2 ^ 31)) = unat (2 ^ 31 :: uint)" using c by simp
  then show ?thesis by (simp only: word_unat_eq_iff)
qed

text \<open>
  Claim C1. A default-constructed \<open>SmallVector<T, 4>\<close> under an allocator that grants every
  request takes \<open>2^31\<close> appends, after which \<open>size()\<close> and the capacity are both \<open>2^31\<close>.
  The next append finds the container full, \<open>ensure_space_for_one\<close> leaves the capacity at
  \<open>2^31\<close> because \<open>m_capacity * 2\<close> wraps to 0, and the element is constructed one slot past
  the end of the storage: the run of \<open>2^31 + 1\<close> appends ends in undefined behaviour, not in
  a container of size \<open>2^31 + 1\<close> whose elements read back.
\<close>

theorem append_past_uint_range:
  "ebind (ebind (SmallVector_default 4 0 (st_empty :: nat state))
       (foreach (replicate (2 ^ 31) 7) (append_value 0))) (size_sv 0) = Inr (2 ^ 31) \<and>
   ebind (ebind (SmallVector_default 4 0 (st_empty :: nat state))
       (foreach (replicate (2 ^ 31) 7) (append_value 0))) (member m_capacity 0) = Inr (2 ^ 31) \<and>
   ebind (ebind (SmallVector_default 4 0 (st_empty :: nat state))
       (foreach (replicate (2 ^ 31) 7) (append_value 0)))
     (\<lambda>s. ebind (ensure_space_for_one 0 s) (member m_capacity 0)) = Inr (2 ^ 31) \<and>
   ebind (ebind (SmallVector_default 4 0 (st_empty :: nat state))
       (foreach (replicate (2 ^ 31) 7) (append_value 0))) (append_value 0 7) =
     Inl (UB OutOfBounds) \<and>
   ebind (SmallVector_default 4 0 (st_empty :: nat state))
       (foreach (replicate (2 ^ 31 + 1) 7) (append_value 0)) = Inl (UB OutOfBounds)"
proof -
  define vs :: "nat list" where "vs = replicate (2 ^ 31) 7"
  have l: "length vs = 2 ^ 31" by (simp add: vs_def)
  have ok: "\<forall>k. \<not> refuse (st_empty :: nat state) k" by (simp add: st_empty_def)
  have "length vs \<le> 2 ^ 31" using l by simp
  from appends_capacity[OF ok this, of 4 0] obtain st1 v where
    r: "ebind (SmallVector_default 4 0 (st_empty :: nat state))
          (foreach vs (append_value 0)) = Inr st1"
    and h: "holds 4 st1 0 vs" and v: "objs st1 0 = Some v"
    and s: "m_size v = of_nat (length vs)" and c: "m_capacity v = capacity_after 4 (length vs)"
    by blast
  have s': "m_size v = 2 ^ 31" using s l by simp
  have c': "m_capacity v = 2 ^ 31" using c l capacity_after_limit by simp
  have full: "m_capacity v \<le> m_size v" using s' c' by simp
  have big: "2 ^ 31 \<le> unat (m_capacity v)" using c' by simp
  note o = append_value_overflow[OF h v full big]
  obtain st0 where d: "SmallVector_default 4 0 (st_empty :: nat state) = Inr st0"
    using SmallVector_default_holds[of 4 0 "st_empty :: nat state"] by blast
  have f: "foreach vs (append_value 0) st0 = Inr st1" using r d by (simp add: ebind_simps)
  have "replicate (2 ^ 31 + 1) (7 :: nat) = vs @ [7]"
    unfolding vs_def by (simp only: replicate_add replicate_Suc replicate_0 One_nat_def)
  then have "ebind (SmallVector_default 4 0 (st_empty :: nat state))
       (foreach (replicate (2 ^ 31 + 1) 7) (append_value 0)) = Inl (UB OutOfBounds)"
    using d f o(2)[of 7] by (simp add: foreach_append ebind_simps)
  moreover have "ebind (ebind (SmallVector_default 4 0 (st_empty :: nat state))
       (foreach vs (append_value 0))) (size_sv 0) = Inr (2 ^ 31)"
    using r v s' by (simp add: ebind_simps size_sv_def)
  moreover have "ebind (ebind (SmallVector_default 4 0 (st_empty :: nat state))
       (foreach vs (append_value 0))) (member m_capacity 0) = Inr (2 ^ 31)"
    using r v c' by (simp add: ebind_simps)
  moreover have "ebind (ebind (SmallVector_default 4 0 (st_empty :: nat state))
       (foreach vs (append_value 0)))
     (\<lambda>s. ebind (ensure_space_for_one 0 s) (member m_capacity 0)) = Inr (2 ^ 31)"
    using r v c' o(1) by (simp add: ebind_simps)
  moreover have "ebind (ebind (SmallVector_default 4 0 (st_empty :: nat state))
       (foreach vs (append_value 0))) (append_value 0 7) = Inl (UB OutOfBounds)"
    using r o(2)[of 7] by (simp add: ebind_simps)
  ultimately show ?thesis unfolding vs_def by (intro conjI)
qed

text \<open>
  \<open>append(const T &)\<close> of an element of the container itself, on a full container:
  \<open>ensure_space_for_one\<close> relocates the elements and destructs the old ones before the
  argument is copied, so \<open>v.append(v[0])\<close> on a full \<open>SmallVector<T, 4>\<close> reads a destructed
  element.
\<close>

lemma append_own_element_full:
  "ebind (SmallVector_init 4 [1, 2, 3, 4 :: nat] 0 st_empty) (append_ref 0 (SmallBuf 0) 0) =
     Inl (UB DeadObject)"
  by (simp add: sv_eval)

section \<open>Moved-from containers\<close>

text \<open>
  Claim C2. A move leaves the source with a null data pointer, but not empty:
  \<open>steal_from_other\<close> does not touch \<open>other.m_size\<close>. After
  \<open>SmallVector<T, 4> a{10, 20}; SmallVector<T, 4> b(std::move(a));\<close> the elements were
  move-constructed into the inline buffer of \<open>b\<close>, yet \<open>a.size()\<close> is still 2 and
  \<open>a.empty()\<close> is false; after a move from a heap-mode container of five elements \<open>b\<close>
  has adopted the heap block and the capacity and no element was constructed, yet
  \<open>a.size()\<close> is still 5. Assigning to the moved-from \<open>a\<close> destructs two elements through
  the null pointer.
\<close>

theorem moved_from_keeps_size:
  "ebind (ebind (SmallVector_init 4 [10, 20 :: nat] 0 st_empty) (SmallVector_move 4 1 0))
     (\<lambda>s. Inr (objs s 0, objs s 1, mem s (SmallBuf 1))) =
     Inr (Some \<lparr>m_elements = Null, m_size = 2, m_capacity = 4\<rparr>,
          Some \<lparr>m_elements = SmallBuf 1, m_size = 2, m_capacity = 4\<rparr>,
          Some [Some 10, Some 20, None, None]) \<and>
   ebind (ebind (SmallVector_init 4 [10, 20 :: nat] 0 st_empty) (SmallVector_move 4 1 0))
     (size_sv 0) = Inr 2 \<and>
   ebind (ebind (SmallVector_init 4 [10, 20 :: nat] 0 st_empty) (SmallVector_move 4 1 0))
     (empty_sv 0) = Inr False \<and>
   ebind (ebind (SmallVector_init 4 [10, 20, 30, 40, 50 :: nat] 0 st_empty)
     (SmallVector_move 4 1 0))
     (\<lambda>s. Inr (objs s 0, objs s 1, constructions s)) =
     Inr (Some \<lparr>m_elements = Null, m_size = 5, m_capacity = 5\<rparr>,
          Some \<lparr>m_elements = HeapBlk 0, m_size = 5, m_capacity = 5\<rparr>, 5) \<and>
   ebind (ebind (SmallVector_init 4 [10, 20 :: nat] 0 st_empty) (SmallVector_move 4 1 0))
     (copy_assign 0 1) = Inl (UB NullDeref)"
  by (simp add: sv_eval)

text \<open>
  Claim C3. Destroying a moved-from container is harmless: no element is destructed and the
  stolen storage and its new owner are untouched. Assigning to it is not: copy assignment
  and move assignment both start with \<open>destruct_elements_and_free_memory\<close>, whose loop
  runs the destructor on the stale \<open>m_size\<close> elements through the null data pointer,
  for an inline and for a heap-mode source alike.
\<close>

theorem moved_from_reassign:
  "ebind (ebind (SmallVector_init 4 [10 :: nat] 0 st_empty) (SmallVector_move 4 1 0))
     (\<lambda>s. ebind (destructor 0 s) (\<lambda>s'. Inr (destructions s' = destructions s \<and>
        mem s' (SmallBuf 1) = mem s (SmallBuf 1) \<and> objs s' 1 = objs s 1))) = Inr True \<and>
   ebind (ebind (SmallVector_init 4 [10 :: nat] 0 st_empty) (SmallVector_move 4 1 0))
     (copy_assign 0 1) = Inl (UB NullDeref) \<and>
   ebind (ebind (ebind (SmallVector_init 4 [10 :: nat] 0 st_empty) (SmallVector_move 4 1 0))
     (SmallVector_init 4 [7] 2)) (move_assign 0 2) = Inl (UB NullDeref) \<and>
   ebind (ebind (SmallVector_init 4 [10, 20, 30, 40, 50 :: nat] 0 st_empty)
     (SmallVector_move 4 1 0)) (copy_assign 0 1) = Inl (UB NullDeref)"
  by (simp add: sv_eval)

text \<open>
  Claim C9. Moving from an inline-mode container constructs each element anew in the
  target and leaves the moved-from elements alive in the inline buffer of the source, whose
  destructor then skips them: \<open>SmallVector<T, 4> a{10}; SmallVector<T, 4> b(std::move(a));\<close>
  followed by the destruction of \<open>b\<close> and \<open>a\<close> performs two constructions and one
  destruction.
\<close>

theorem inline_move_leaks_elements:
  "ebind (ebind (SmallVector_init 4 [10 :: nat] 0 st_empty) (SmallVector_move 4 1 0))
     (\<lambda>s. Inr (objs s 0, mem s (SmallBuf 0), constructions s, destructions s)) =
     Inr (Some \<lparr>m_elements = Null, m_size = 1, m_capacity = 4\<rparr>,
          Some [Some 10, None, None, None], 2, 0) \<and>
   ebind (ebind (ebind (ebind (SmallVector_init 4 [10 :: nat] 0 st_empty)
     (SmallVector_move 4 1 0)) (destructor 1)) (destructor 0))
     (\<lambda>s. Inr (objs s 0, objs s 1, constructions s, destructions s)) =
     Inr (None, None, 2, 1)"
  by (simp add: sv_eval)

section \<open>Storage mode\<close>

text \<open>
  Claim C6 (as amended). The default constructor, the sized constructor with a count of at
  most \<open>N\<close> and the constructor from at most \<open>N\<close> values call \<open>malloc\<close> not once and
  leave the data pointer at the inline buffer. A copy-constructed container is inline-mode
  exactly when its source is (a copy of a heap-mode source allocates one block), and so is a
  move-constructed one (which never allocates). A usable container with more than \<open>N\<close>
  elements is heap-mode, and stays on the same heap block through any number of
  \<open>remove_last\<close> calls.
\<close>

theorem storage_mode:
  "(\<exists>st'. SmallVector_default N this st = Inr st' \<and>
        member m_elements this st' = Inr (small_buffer this) \<and> mallocs st' = mallocs st) \<and>
   (\<forall>count d. count \<le> N \<longrightarrow>
      (\<exists>st'. SmallVector_sized N d count this st = Inr st' \<and> size_sv this st' = Inr count \<and>
         member m_elements this st' = Inr (small_buffer this) \<and> mallocs st' = mallocs st)) \<and>
   (\<forall>vals. length vals \<le> unat N \<longrightarrow>
      (\<exists>st'. SmallVector_init N vals this st = Inr st' \<and> holds N st' this vals \<and>
         member m_elements this st' = Inr (small_buffer this) \<and> mallocs st' = mallocs st)) \<and>
   (\<forall>other xs. holds N st other xs \<and> this \<noteq> other \<and> \<not> refuse st (mallocs st) \<longrightarrow>
      (\<exists>st' small. SmallVector_copy N this other st = Inr st' \<and> holds N st' this xs \<and>
         is_small other st = Inr small \<and> is_small this st' = Inr small \<and>
         mallocs st' = (if small then mallocs st else Suc (mallocs st)))) \<and>
   (\<forall>other xs. holds N st other xs \<and> this \<noteq> other \<longrightarrow>
      (\<exists>st' small. SmallVector_move N this other st = Inr st' \<and> holds N st' this xs \<and>
         is_small other st = Inr small \<and> is_small this st' = Inr small \<and>
         mallocs st' = mallocs st)) \<and>
   (\<forall>xs. holds N st this xs \<and> unat N < length xs \<longrightarrow>
      (\<exists>b. member m_elements this st = Inr (HeapBlk b) \<and>
         (\<forall>k\<le>length xs. \<exists>st'. foreach [0..<k] (\<lambda>i. remove_last this) st = Inr st' \<and>
            holds N st' this (take (length xs - k) xs) \<and>
            member m_elements this st' = Inr (HeapBlk b) \<and> is_small this st' = Inr False)))"
proof (intro conjI allI impI)
  show "\<exists>st'. SmallVector_default N this st = Inr st' \<and>
        member m_elements this st' = Inr (small_buffer this) \<and> mallocs st' = mallocs st"
    using SmallVector_default_holds[of N this st] by (auto simp: small_buffer_def)
next
  fix count :: uint and d :: 'a assume "count \<le> N"
  from SmallVector_sized_inline[OF this, of d this st]
  show "\<exists>st'. SmallVector_sized N d count this st = Inr st' \<and> size_sv this st' = Inr count \<and>
         member m_elements this st' = Inr (small_buffer this) \<and> mallocs st' = mallocs st"
    by (auto simp: small_buffer_def size_sv_def)
next
  fix vals :: "'a list" assume "length vals \<le> unat N"
  from SmallVector_init_inline[OF this, of this st]
  show "\<exists>st'. SmallVector_init N vals this st = Inr st' \<and> holds N st' this vals \<and>
         member m_elements this st' = Inr (small_buffer this) \<and> mallocs st' = mallocs st"
    by (auto simp: small_buffer_def)
next
  fix other xs
  assume a: "holds N st other xs \<and> this \<noteq> other \<and> \<not> refuse st (mallocs st)"
  then obtain ov where ov: "objs st other = Some ov" using holds_obj by blast
  from a have shape: "m_elements ov = SmallBuf other \<or> (\<exists>b. m_elements ov = HeapBlk b)"
    using ov unfolding holds_iff by auto
  from SmallVector_copy_ok[OF _ ov, of N xs this] a obtain st' where
    c: "SmallVector_copy N this other st = Inr st'" and h: "holds N st' this xs"
    and o': "objs st' = (objs st)(this \<mapsto>
        \<lparr>m_elements = (if m_elements ov = SmallBuf other then SmallBuf this
                        else HeapBlk (mallocs st)),
         m_size = m_size ov, m_capacity = m_capacity ov\<rparr>)"
    and m': "mallocs st' = (if m_elements ov = SmallBuf other then mallocs st
                            else Suc (mallocs st))" by blast
  show "\<exists>st' small. SmallVector_copy N this other st = Inr st' \<and> holds N st' this xs \<and>
         is_small other st = Inr small \<and> is_small this st' = Inr small \<and>
         mallocs st' = (if small then mallocs st else Suc (mallocs st))"
    using c h o' m' ov
    by (intro exI[of _ st'] exI[of _ "m_elements ov = SmallBuf other"])
       (auto simp: is_small_def small_buffer_def)
next
  fix other xs
  assume a: "holds N st other xs \<and> this \<noteq> other"
  then obtain ov where ov: "objs st other = Some ov" using holds_obj by blast
  from a have shape: "m_elements ov = SmallBuf other \<or> (\<exists>b. m_elements ov = HeapBlk b)"
    using ov unfolding holds_iff by auto
  from SmallVector_move_ok[OF _ ov, of N xs this] a obtain st' where
    c: "SmallVector_move N this other st = Inr st'" and h: "holds N st' this xs"
    and o': "objs st' = (objs st)(this \<mapsto>
        \<lparr>m_elements = (if m_elements ov = SmallBuf other then SmallBuf this
                        else m_elements ov),
         m_size = m_size ov, m_capacity = m_capacity ov\<rparr>,
        other \<mapsto> ov\<lparr>m_elements := Null\<rparr>)"
    and m': "mallocs st' = mallocs st" by blast
  have "m_elements ov \<noteq> SmallBuf this" using a ov unfolding holds_iff by auto
  then show "\<exists>st' small. SmallVector_move N this other st = Inr st' \<and> holds N st' this xs \<and>
         is_small other st = Inr small \<and> is_small this st' = Inr small \<and>
         mallocs st' = mallocs st"
    using c h o' m' ov a
    by (intro exI[of _ st'] exI[of _ "m_elements ov = SmallBuf other"])
       (auto simp: is_small_def small_buffer_def)
next
  fix xs assume a: "holds N st this xs \<and> unat N < length xs"
  then obtain v b where v: "objs st this = Some v" "m_elements v = HeapBlk b"
    using holds_heap_mode by blast
  have "\<forall>k\<le>length xs. \<exists>st'. foreach [0..<k] (\<lambda>i. remove_last this) st = Inr st' \<and>
            holds N st' this (take (length xs - k) xs) \<and>
            member m_elements this st' = Inr (HeapBlk b) \<and> is_small this st' = Inr False"
  proof (intro allI impI)
    fix k assume "k \<le> length xs"
    from remove_last_repeat[OF _ v(1) this, of N] a v
    show "\<exists>st'. foreach [0..<k] (\<lambda>i. remove_last this) st = Inr st' \<and>
            holds N st' this (take (length xs - k) xs) \<and>
            member m_elements this st' = Inr (HeapBlk b) \<and> is_small this st' = Inr False"
      by (auto simp: is_small_def small_buffer_def)
  qed
  then show "\<exists>b. member m_elements this st = Inr (HeapBlk b) \<and>
         (\<forall>k\<le>length xs. \<exists>st'. foreach [0..<k] (\<lambda>i. remove_last this) st = Inr st' \<and>
            holds N st' this (take (length xs - k) xs) \<and>
            member m_elements this st' = Inr (HeapBlk b) \<and> is_small this st' = Inr False)"
    using v by auto
qed


text \<open>New containers built next to a heap-mode container of five elements.\<close>

theorem storage_mode_witness:
  "\<exists>S. SmallVector_init 4 [10, 20, 30, 40, 50 :: nat] 0 st_empty = Inr S \<and>
     holds 4 S 0 [10, 20, 30, 40, 50] \<and> (1::nat) \<noteq> 0 \<and> \<not> refuse S (mallocs S) \<and>
     (\<exists>st'. SmallVector_sized 4 7 3 1 S = Inr st' \<and> size_sv 1 st' = Inr 3 \<and>
        member m_elements 1 st' = Inr (small_buffer 1) \<and> mallocs st' = mallocs S) \<and>
     (\<exists>st'. SmallVector_init 4 [1, 2] 1 S = Inr st' \<and> holds 4 st' 1 [1, 2] \<and>
        member m_elements 1 st' = Inr (small_buffer 1) \<and> mallocs st' = mallocs S) \<and>
     (\<exists>st'. SmallVector_copy 4 1 0 S = Inr st' \<and> holds 4 st' 1 [10, 20, 30, 40, 50] \<and>
        is_small 0 S = Inr False \<and> is_small 1 st' = Inr False \<and>
        mallocs st' = Suc (mallocs S)) \<and>
     (\<exists>st'. SmallVector_move 4 1 0 S = Inr st' \<and> holds 4 st' 1 [10, 20, 30, 40, 50] \<and>
        is_small 1 st' = Inr False \<and> mallocs st' = mallocs S) \<and>
     (\<exists>st'. foreach [0..<2] (\<lambda>i. remove_last 0) S = Inr st' \<and> holds 4 st' 0 [10, 20, 30] \<and>
        is_small 0 st' = Inr False)"
proof -
  have ok: "\<forall>k. \<not> refuse (st_empty :: nat state) k" by (simp add: st_empty_def)
  from SmallVector_init_holds[OF ok, of "[10, 20, 30, 40, 50]" 4 0] obtain S where
    i: "SmallVector_init 4 [10, 20, 30, 40, 50 :: nat] 0 st_empty = Inr S"
    and h: "holds 4 S 0 [10, 20, 30, 40, 50]" and r: "refuse S = refuse (st_empty :: nat state)"
    by auto
  have nr: "\<not> refuse S (mallocs S)" using r ok by simp
  have big: "unat (4 :: uint) < length [10, 20, 30, 40, 50 :: nat]" by simp
  from holds_heap_mode[OF h big] have sm: "is_small 0 S = Inr False"
    by (auto simp: is_small_def small_buffer_def)
  note new = storage_mode[of 4 1 S]
  note old = storage_mode[of 4 0 S]
  have "\<exists>st'. SmallVector_sized 4 7 3 1 S = Inr st' \<and> size_sv 1 st' = Inr 3 \<and>
        member m_elements 1 st' = Inr (small_buffer 1) \<and> mallocs st' = mallocs S"
    using new[THEN conjunct2, THEN conjunct1, rule_format, of 3 7] by simp
  moreover have "\<exists>st'. SmallVector_init 4 [1, 2] 1 S = Inr st' \<and> holds 4 st' 1 [1, 2] \<and>
        member m_elements 1 st' = Inr (small_buffer 1) \<and> mallocs st' = mallocs S"
    using new[THEN conjunct2, THEN conjunct2, THEN conjunct1, rule_format, of "[1, 2]"] by simp
  moreover have "\<exists>st'. SmallVector_copy 4 1 0 S = Inr st' \<and>
        holds 4 st' 1 [10, 20, 30, 40, 50] \<and>
        is_small 0 S = Inr False \<and> is_small 1 st' = Inr False \<and>
        mallocs st' = Suc (mallocs S)"
    using new[THEN conjunct2, THEN conjunct2, THEN conjunct2, THEN conjunct1, rule_format,
        of 0 "[10, 20, 30, 40, 50]"] h nr sm by auto
  moreover have "\<exists>st'. SmallVector_move 4 1 0 S = Inr st' \<and>
        holds 4 st' 1 [10, 20, 30, 40, 50] \<and>
        is_small 1 st' = Inr False \<and> mallocs st' = mallocs S"
    using new[THEN conjunct2, THEN conjunct2, THEN conjunct2, THEN conjunct2, THEN conjunct1,
        rule_format, of 0 "[10, 20, 30, 40, 50]"] h sm by auto
  moreover have "\<exists>st'. foreach [0..<2] (\<lambda>i. remove_last 0) S = Inr st' \<and>
        holds 4 st' 0 [10, 20, 30] \<and> is_small 0 st' = Inr False"
  proof -
    from old[THEN conjunct2, THEN conjunct2, THEN conjunct2, THEN conjunct2, THEN conjunct2,
        rule_format, of "[10, 20, 30, 40, 50]"] h
    obtain b where "\<forall>k\<le>length [10, 20, 30, 40, 50 :: nat].
        \<exists>st'. foreach [0..<k] (\<lambda>i. remove_last 0) S = Inr st' \<and>
          holds 4 st' 0 (take (length [10, 20, 30, 40, 50 :: nat] - k) [10, 20, 30, 40, 50]) \<and>
          member m_elements 0 st' = Inr (HeapBlk b) \<and> is_small 0 st' = Inr False"
      by auto
    from this[rule_format, of 2] show ?thesis by auto
  qed
  ultimately show ?thesis using i h nr by blast
qed

text \<open>
  The claim as stated fails for copy construction: a container that grew to five elements
  and shrank to three is still heap-mode, and its copy, constructed with length
  \<open>3 <= N = 4\<close>, allocates a heap block of its own.
\<close>

theorem storage_mode_counterexample:
  "ebind (ebind (ebind (ebind (SmallVector_default 4 0 (st_empty :: nat state))
      (foreach [10, 20, 30, 40, 50] (append_value 0))) (remove_last 0)) (remove_last 0))
     (\<lambda>s. ebind (SmallVector_copy 4 1 0 s) (\<lambda>s'.
        Inr (size_sv 1 s', is_small 1 s', member m_elements 1 s', mallocs s, mallocs s'))) =
   Inr (Inr 3, Inr False, Inr (HeapBlk 1), 1, 2)"
  by (simp add: sv_eval)

section \<open>Self-assignment\<close>

lemma teardown_ok:
  assumes h: "holds N st this xs" and v: "objs st this = Some v"
  shows "\<exists>st1. destruct_elements_and_free_memory this st = Inr st1 \<and>
     objs st1 = objs st \<and> destructions st1 = destructions st + length xs \<and>
     constructions st1 = constructions st \<and> mallocs st1 = mallocs st \<and>
     refuse st1 = refuse st \<and>
     (\<forall>b. m_elements v = HeapBlk b \<longrightarrow> mem st1 (HeapBlk b) = None) \<and>
     (m_elements v = SmallBuf this \<longrightarrow>
        (\<exists>cs1. mem st1 (SmallBuf this) = Some cs1 \<and> length cs1 = unat N \<and>
           (\<forall>i<length xs. cs1 ! i = None))) \<and>
     (\<forall>q. q \<noteq> m_elements v \<longrightarrow> mem st1 q = mem st q)"
proof -
  define p where "p = m_elements v"
  define n where "n = unat (m_size v)"
  from h v obtain cs where cs: "mem st p = Some cs"
    and shape: "p = SmallBuf this \<and> m_capacity v = N \<or>
                (\<exists>b. p = HeapBlk b \<and> b < mallocs st \<and> N \<le> m_capacity v)"
    and len: "length cs = unat (m_capacity v)" "n = length xs" "length xs \<le> length cs"
    and xs: "take (length xs) cs = map Some xs"
    unfolding holds_iff p_def n_def by auto
  have p: "p \<noteq> Null" using shape by auto
  have live: "\<forall>i<n. cs ! i \<noteq> None" using holds_live[OF xs len(3)] len by simp
  define st0 where "st0 = st\<lparr>mem := (mem st)(p \<mapsto> replicate n None @ drop n cs),
      destructions := destructions st + n\<rparr>"
  define st1 where "st1 = (if p = SmallBuf this then st0 else st0\<lparr>mem := (mem st0)(p := None)\<rparr>)"
  have e0: "destruct_elements_but_keep_memory this st = Inr st0"
    using destruct_elements_but_keep_memory_ok[OF v _ p cs] len live
    by (simp add: st0_def p_def n_def)
  have o0: "objs st0 this = Some v" using v by (simp add: st0_def)
  have res: "destruct_elements_and_free_memory this st = Inr st1"
    using e0 o0 p shape
    by (auto simp: destruct_elements_and_free_memory_def ebind_simps is_small_def
        small_buffer_def p_def[symmetric] free_def st1_def st0_def)
  have "\<forall>i<length xs. (replicate n None @ drop n cs) ! i = None"
    using len by (simp add: nth_append)
  then show ?thesis using res shape len
    by (auto simp: st1_def st0_def p_def[symmetric])
qed

lemma member_update_collapse:
  "v\<lparr>m_elements := p, m_capacity := m_capacity v, m_size := m_size v, m_elements := q\<rparr> =
   v\<lparr>m_elements := q\<rparr>"
  by (cases v) simp

lemma self_move_defined:
  assumes h: "holds N st a xs" and v: "objs st a = Some v"
    and c: "m_elements v \<noteq> SmallBuf a \<or> xs = []"
  shows "\<exists>st'. move_assign a a st = Inr st' \<and>
     objs st' = (objs st)(a \<mapsto> v\<lparr>m_elements := Null\<rparr>) \<and> st' \<noteq> st \<and>
     destructions st' = destructions st + length xs \<and> constructions st' = constructions st"
proof -
  from teardown_ok[OF h v] obtain st1 where
    t: "destruct_elements_and_free_memory a st = Inr st1" and o1: "objs st1 = objs st"
    and d1: "destructions st1 = destructions st + length xs"
      "constructions st1 = constructions st"
    and sm: "m_elements v = SmallBuf a \<longrightarrow>
        (\<exists>cs1. mem st1 (SmallBuf a) = Some cs1 \<and> length cs1 = unat N \<and>
           (\<forall>i<length xs. cs1 ! i = None))"
    by blast
  have v1: "objs st1 a = Some v" using o1 v by simp
  have sz: "unat (m_size v) = length xs" using holds_size_le_capacity[OF h v] by simp
  have nn: "m_elements v \<noteq> Null" using h v unfolding holds_iff by auto
  define st' where "st' = st1\<lparr>objs := (objs st1)(a \<mapsto> v\<lparr>m_elements := Null\<rparr>)\<rparr>"
  have "steal_from_other a a st1 = Inr st'"
  proof (cases "m_elements v = SmallBuf a")
    case True
    then have "xs = []" using c by simp
    then have "uninitialized_copy (SmallBuf a) (unat (m_size v)) (SmallBuf a) st1 = Inr st1"
      using sz by (simp add: uninitialized_copy_def)
    then show ?thesis using v1 True
      by (simp add: steal_from_other_def is_small_def small_buffer_def ebind_simps st'_def
          member_update_collapse)
  next
    case False
    then show ?thesis using v1
      by (simp add: steal_from_other_def is_small_def small_buffer_def ebind_simps st'_def
          member_update_collapse)
  qed
  then have m: "move_assign a a st = Inr st'" using t by (simp add: move_assign_def ebind_simps)
  have "objs st' a \<noteq> objs st a" using v nn by (cases v) (auto simp: st'_def)
  then have "st' \<noteq> st" by auto
  then show ?thesis using m o1 d1 by (auto simp: st'_def)
qed

lemma self_move_undefined:
  assumes h: "holds N st a xs" and v: "objs st a = Some v"
    and c: "m_elements v = SmallBuf a" "xs \<noteq> []"
  shows "move_assign a a st = Inl (UB DeadObject)"
proof -
  from teardown_ok[OF h v] c obtain st1 cs1 where
    t: "destruct_elements_and_free_memory a st = Inr st1" and o1: "objs st1 = objs st"
    and m1: "mem st1 (SmallBuf a) = Some cs1" "length cs1 = unat N"
      "\<forall>i<length xs. cs1 ! i = None"
    by blast
  have v1: "objs st1 a = Some v" using o1 v by simp
  have sz: "unat (m_size v) = length xs" using holds_size_le_capacity[OF h v] by simp
  have capN: "length xs \<le> unat N" using h v c unfolding holds_iff by auto
  have pos: "0 < length xs" using c by simp
  have "0 < length cs1" using m1(2) pos capN by arith
  moreover have "cs1 ! 0 = None" using m1(3) pos by blast
  ultimately have l0: "load (SmallBuf a) 0 st1 = Inl (UB DeadObject)"
    using m1(1) by (simp add: load_def ebind_simps)
  have "[0..<length xs] = 0 # [Suc 0..<length xs]" using pos by (simp add: upt_conv_Cons)
  then have "uninitialized_copy (SmallBuf a) (unat (m_size v)) (SmallBuf a) st1 =
      Inl (UB DeadObject)"
    using l0 sz by (simp add: uninitialized_copy_def ebind_simps)
  then have "steal_from_other a a st1 = Inl (UB DeadObject)"
    using v1 c by (simp add: steal_from_other_def is_small_def small_buffer_def ebind_simps)
  then show ?thesis using t by (simp add: move_assign_def ebind_simps)
qed


text \<open>
  Claim C10 (as amended). Copy assignment of a usable container to itself returns at once
  and changes nothing. Move assignment has no such guard: \<open>a = std::move(a)\<close> first runs
  \<open>destruct_elements_and_free_memory\<close>, which destructs every live element and frees the
  heap block, and then steals from the storage it has just torn down. For a heap-mode or
  an empty container the result is the moved-from state (null data pointer, size and
  capacity as before), not the state before; for an inline-mode container with live
  elements the steal move-constructs from the elements just destructed, which is
  undefined behaviour.
\<close>

theorem self_move_assignment:
  assumes h: "holds N st a xs" and v: "objs st a = Some v"
  shows "copy_assign a a st = Inr st \<and>
     (\<exists>st1. destruct_elements_and_free_memory a st = Inr st1 \<and>
        move_assign a a st = steal_from_other a a st1 \<and>
        objs st1 = objs st \<and> destructions st1 = destructions st + length xs \<and>
        (\<forall>b. m_elements v = HeapBlk b \<longrightarrow> mem st1 (HeapBlk b) = None)) \<and>
     (m_elements v \<noteq> SmallBuf a \<or> xs = [] \<longrightarrow>
        (\<exists>st'. move_assign a a st = Inr st' \<and>
           objs st' = (objs st)(a \<mapsto> v\<lparr>m_elements := Null\<rparr>) \<and> st' \<noteq> st)) \<and>
     (m_elements v = SmallBuf a \<and> xs \<noteq> [] \<longrightarrow> move_assign a a st = Inl (UB DeadObject))"
proof (intro conjI impI)
  show "copy_assign a a st = Inr st" by (simp add: copy_assign_def)
next
  from teardown_ok[OF h v] obtain st1 where
    t: "destruct_elements_and_free_memory a st = Inr st1" and o1: "objs st1 = objs st"
    and d1: "destructions st1 = destructions st + length xs"
    and f1: "\<forall>b. m_elements v = HeapBlk b \<longrightarrow> mem st1 (HeapBlk b) = None"
    by blast
  have "move_assign a a st = steal_from_other a a st1"
    using t by (simp add: move_assign_def ebind_simps)
  then show "\<exists>st1. destruct_elements_and_free_memory a st = Inr st1 \<and>
        move_assign a a st = steal_from_other a a st1 \<and>
        objs st1 = objs st \<and> destructions st1 = destructions st + length xs \<and>
        (\<forall>b. m_elements v = HeapBlk b \<longrightarrow> mem st1 (HeapBlk b) = None)"
    using t o1 d1 f1 by blast
next
  assume "m_elements v \<noteq> SmallBuf a \<or> xs = []"
  from self_move_defined[OF h v this]
  show "\<exists>st'. move_assign a a st = Inr st' \<and>
           objs st' = (objs st)(a \<mapsto> v\<lparr>m_elements := Null\<rparr>) \<and> st' \<noteq> st"
    by blast
next
  assume "m_elements v = SmallBuf a \<and> xs \<noteq> []"
  then show "move_assign a a st = Inl (UB DeadObject)"
    using self_move_undefined[OF h v] by simp
qed


text \<open>A heap-mode container of five elements and an inline-mode container of one.\<close>

theorem self_move_assignment_witness:
  "(\<exists>S v. SmallVector_init 4 [10, 20, 30, 40, 50 :: nat] 0 st_empty = Inr S \<and>
      holds 4 S 0 [10, 20, 30, 40, 50] \<and> objs S 0 = Some v \<and>
      m_elements v \<noteq> SmallBuf 0 \<and> copy_assign 0 0 S = Inr S \<and>
      (\<exists>st'. move_assign 0 0 S = Inr st' \<and>
         objs st' = (objs S)(0 \<mapsto> v\<lparr>m_elements := Null\<rparr>) \<and> st' \<noteq> S)) \<and>
   (\<exists>S v. SmallVector_init 4 [10 :: nat] 0 st_empty = Inr S \<and>
      holds 4 S 0 [10] \<and> objs S 0 = Some v \<and> m_elements v = SmallBuf 0 \<and>
      [10 :: nat] \<noteq> [] \<and> copy_assign 0 0 S = Inr S \<and>
      move_assign 0 0 S = Inl (UB DeadObject))"
proof (rule conjI)
  have ok: "\<forall>k. \<not> refuse (st_empty :: nat state) k" by (simp add: st_empty_def)
  from SmallVector_init_holds[OF ok, of "[10, 20, 30, 40, 50]" 4 0] obtain S where
    i: "SmallVector_init 4 [10, 20, 30, 40, 50 :: nat] 0 st_empty = Inr S"
    and h: "holds 4 S 0 [10, 20, 30, 40, 50]" by auto
  have "unat (4 :: uint) < length [10, 20, 30, 40, 50 :: nat]" by simp
  from holds_heap_mode[OF h this] obtain v b where
    v: "objs S 0 = Some v" and b: "m_elements v = HeapBlk b" by blast
  note s = self_move_assignment[OF h v]
  show "\<exists>S v. SmallVector_init 4 [10, 20, 30, 40, 50 :: nat] 0 st_empty = Inr S \<and>
      holds 4 S 0 [10, 20, 30, 40, 50] \<and> objs S 0 = Some v \<and>
      m_elements v \<noteq> SmallBuf 0 \<and> copy_assign 0 0 S = Inr S \<and>
      (\<exists>st'. move_assign 0 0 S = Inr st' \<and>
         objs st' = (objs S)(0 \<mapsto> v\<lparr>m_elements := Null\<rparr>) \<and> st' \<noteq> S)"
    using i h v b s by auto
next
  have "length [10 :: nat] \<le> unat (4 :: uint)" by simp
  from SmallVector_init_inline[OF this, of 0 st_empty] obtain S where
    i: "SmallVector_init 4 [10 :: nat] 0 st_empty = Inr S"
    and h: "holds 4 S 0 [10]"
    and v: "objs S 0 = Some \<lparr>m_elements = SmallBuf 0, m_size = of_nat (length [10 :: nat]),
                               m_capacity = 4\<rparr>" by blast
  note s = self_move_assignment[OF h v]
  show "\<exists>S v. SmallVector_init 4 [10 :: nat] 0 st_empty = Inr S \<and>
      holds 4 S 0 [10] \<and> objs S 0 = Some v \<and> m_elements v = SmallBuf 0 \<and>
      [10 :: nat] \<noteq> [] \<and> copy_assign 0 0 S = Inr S \<and>
      move_assign 0 0 S = Inl (UB DeadObject)"
    using i h v s by auto
qed

text \<open>
  The claim as stated promises the moved-from state for every container. On the inline
  \<open>SmallVector<T, 4> a{10}\<close> the teardown destructs the element in place, and
  \<open>steal_from_other\<close> then reads it.
\<close>

theorem self_move_assignment_counterexample:
  "ebind (SmallVector_init 4 [10 :: nat] 0 st_empty) (\<lambda>s. Inr (objs s 0)) =
     Inr (Some \<lparr>m_elements = SmallBuf 0, m_size = 1, m_capacity = 4\<rparr>) \<and>
   ebind (SmallVector_init 4 [10 :: nat] 0 st_empty) (destruct_elements_and_free_memory 0) =
     ebind (SmallVector_init 4 [10 :: nat] 0 st_empty)
       (\<lambda>s. Inr (s\<lparr>mem := (mem s)(SmallBuf 0 \<mapsto> [None, None, None, None]),
                   destructions := 1\<rparr>)) \<and>
   ebind (SmallVector_init 4 [10 :: nat] 0 st_empty) (move_assign 0 0) = Inl (UB DeadObject)"
  by (simp add: sv_eval)

section \<open>Allocation failure\<close>

lemma uninitialized_copy_to_null:
  assumes "mem st src = Some cs" "src \<noteq> Null" "0 < n" "n \<le> length cs" "cs ! 0 \<noteq> None"
  shows "uninitialized_copy src n Null st = Inl (UB NullDeref)"
proof -
  have "[0..<n] = 0 # [Suc 0..<n]" using assms(3) by (simp add: upt_conv_Cons)
  moreover obtain x where "cs ! 0 = Some x" using assms(5) by (cases "cs ! 0") auto
  moreover have "cs \<noteq> []" using assms(3,4) by auto
  ultimately show ?thesis
    using assms by (simp add: uninitialized_copy_def ebind_simps load_def construct_at_def)
qed

lemma grow_refused_empty:
  assumes h: "holds N st this []" and v: "objs st this = Some v"
    and m: "m_capacity v < m" and no: "refuse st (mallocs st)"
  shows "\<exists>st'. grow this m st = Inr st' \<and>
     objs st' = (objs st)(this \<mapsto> \<lparr>m_elements = Null, m_size = 0, m_capacity = m\<rparr>) \<and>
     (\<forall>b. m_elements v = HeapBlk b \<longrightarrow> mem st' (HeapBlk b) = None) \<and>
     mallocs st' = Suc (mallocs st)"
proof -
  define p where "p = m_elements v"
  from h v obtain cs where cs: "mem st p = Some cs"
    and shape: "p = SmallBuf this \<or> (\<exists>b. p = HeapBlk b)"
    and sz: "unat (m_size v) = 0"
    unfolding holds_iff p_def by auto
  have s0: "m_size v = 0" using sz by (simp add: unat_eq_zero)
  define st2 where "st2 = st\<lparr>objs := (objs st)(this \<mapsto> v\<lparr>m_capacity := m\<rparr>),
      mallocs := Suc (mallocs st)\<rparr>"
  define st3 where "st3 = (if p = SmallBuf this then st2 else st2\<lparr>mem := (mem st2)(p := None)\<rparr>)"
  define st4 where "st4 = st3\<lparr>objs := (objs st3)(this \<mapsto>
      v\<lparr>m_capacity := m, m_elements := Null\<rparr>)\<rparr>"
  have e: "malloc (unat m) (st\<lparr>objs := (objs st)(this \<mapsto> v\<lparr>m_capacity := m\<rparr>)\<rparr>) = (Null, st2)"
    using no by (simp add: malloc_def st2_def)
  have o2: "objs st2 this = Some (v\<lparr>m_capacity := m\<rparr>)" by (simp add: st2_def)
  have d: "destruct_elements_but_keep_memory this st2 = Inr st2"
    using o2 s0 by (simp add: destruct_elements_but_keep_memory_def ebind_simps)
  have f: "(if \<not> (p = SmallBuf this)
              then ebind (member m_elements this st2) (\<lambda>q. free q st2)
              else Inr st2) = Inr st3"
    using shape o2 cs by (auto simp: free_def st3_def st2_def ebind_simps p_def)
  have o3: "objs st3 this = Some (v\<lparr>m_capacity := m\<rparr>)" by (simp add: st3_def o2)
  have g: "grow this m st = Inr st4"
    using v m e o2 d f o3 s0
    by (simp add: grow_def ebind_simps uninitialized_copy_def is_small_def small_buffer_def
        p_def[symmetric] not_le[symmetric] st4_def)
  have "objs st4 = (objs st)(this \<mapsto> \<lparr>m_elements = Null, m_size = 0, m_capacity = m\<rparr>)"
    using s0 by (cases v) (auto simp: st4_def st3_def st2_def fun_eq_iff)
  moreover have "\<forall>b. m_elements v = HeapBlk b \<longrightarrow> mem st4 (HeapBlk b) = None"
    by (auto simp: st4_def st3_def p_def)
  moreover have "mallocs st4 = Suc (mallocs st)" by (simp add: st4_def st3_def st2_def)
  ultimately show ?thesis using g by blast
qed

lemma grow_refused_nonempty:
  assumes h: "holds N st this xs" and v: "objs st this = Some v" and ne: "xs \<noteq> []"
    and m: "m_capacity v < m" and no: "refuse st (mallocs st)"
  shows "grow this m st = Inl (UB NullDeref)"
proof -
  define p where "p = m_elements v"
  from h v obtain cs where cs: "mem st p = Some cs"
    and p: "p \<noteq> Null"
    and len: "unat (m_size v) = length xs" "length xs \<le> length cs"
    and xs: "take (length xs) cs = map Some xs"
    unfolding holds_iff p_def by auto
  define st2 where "st2 = st\<lparr>objs := (objs st)(this \<mapsto> v\<lparr>m_capacity := m\<rparr>),
      mallocs := Suc (mallocs st)\<rparr>"
  have e: "malloc (unat m) (st\<lparr>objs := (objs st)(this \<mapsto> v\<lparr>m_capacity := m\<rparr>)\<rparr>) = (Null, st2)"
    using no by (simp add: malloc_def st2_def)
  have o2: "objs st2 this = Some (v\<lparr>m_capacity := m\<rparr>)" by (simp add: st2_def)
  have m2: "mem st2 p = Some cs" using cs by (simp add: st2_def)
  have pos: "0 < length xs" using ne by simp
  have "cs ! 0 \<noteq> None" using holds_live[OF xs len(2)] pos by blast
  from uninitialized_copy_to_null[OF m2 p pos len(2) this]
  show ?thesis
    using v m e o2 len
    by (simp add: grow_def ebind_simps p_def[symmetric] not_le[symmetric])
qed

lemma SmallVector_copy_refused:
  assumes h: "holds N st other xs" and o: "objs st other = Some ov"
    and heap: "m_elements ov \<noteq> SmallBuf other"
    and ne: "this \<noteq> other" and no: "refuse st (mallocs st)"
  shows "xs = [] \<Longrightarrow> \<exists>st'. SmallVector_copy N this other st = Inr st' \<and>
           objs st' this = Some \<lparr>m_elements = Null, m_size = 0, m_capacity = m_capacity ov\<rparr>"
    and "xs \<noteq> [] \<Longrightarrow> SmallVector_copy N this other st = Inl (UB NullDeref)"
proof -
  define p where "p = m_elements ov"
  from h o obtain cs where cs: "mem st p = Some cs"
    and p: "p \<noteq> Null" "p \<noteq> SmallBuf this"
    and len: "unat (m_size ov) = length xs" "length xs \<le> length cs"
    and xs: "take (length xs) cs = map Some xs"
    using ne heap unfolding holds_iff p_def by auto
  define st0 where "st0 = new_object N this st"
  define st2 where "st2 = st0\<lparr>mallocs := Suc (mallocs st0),
      objs := (objs st0)(this \<mapsto> \<lparr>m_elements = Null, m_size = 0, m_capacity = N\<rparr>)\<rparr>"
  have o0: "objs st0 other = Some ov"
    "objs st0 this = Some \<lparr>m_elements = Null, m_size = 0, m_capacity = N\<rparr>"
    using o ne by (simp_all add: st0_def new_object_def)
  have e: "malloc (unat (m_capacity ov)) st0 = (Null, st0\<lparr>mallocs := Suc (mallocs st0)\<rparr>)"
    using no by (simp add: malloc_def st0_def new_object_def)
  have o2: "objs st2 other = Some ov"
    "objs st2 this = Some \<lparr>m_elements = Null, m_size = 0, m_capacity = N\<rparr>"
    using o0 ne by (simp_all add: st2_def)
  have m2: "mem st2 p = Some cs" using cs p by (simp add: st2_def st0_def new_object_def)
  have unf: "SmallVector_copy N this other st =
      ebind (uninitialized_copy p (unat (m_size ov)) Null st2) (\<lambda>st3.
      ebind (member m_capacity other st3) (\<lambda>cap.
      ebind (assign_member (\<lambda>v. v\<lparr>m_capacity := cap\<rparr>) this st3) (\<lambda>st4.
      ebind (member m_size other st4) (\<lambda>sz.
      assign_member (\<lambda>v. v\<lparr>m_size := sz\<rparr>) this st4))))"
    using o0 e o2 heap
    by (simp add: SmallVector_copy_def copy_from_other_def is_small_def small_buffer_def
        ebind_simps st0_def[symmetric] p_def[symmetric] st2_def)
  {
    assume "xs = []"
    then have "uninitialized_copy p (unat (m_size ov)) Null st2 = Inr st2"
      using len by (simp add: uninitialized_copy_def)
    then show "\<exists>st'. SmallVector_copy N this other st = Inr st' \<and>
           objs st' this = Some \<lparr>m_elements = Null, m_size = 0, m_capacity = m_capacity ov\<rparr>"
      using unf o2 ne len \<open>xs = []\<close> by (simp add: ebind_simps unat_eq_zero)
  }
  {
    assume "xs \<noteq> []"
    then have pos: "0 < length xs" by simp
    have "cs ! 0 \<noteq> None" using holds_live[OF xs len(2)] pos by blast
    from uninitialized_copy_to_null[OF m2 p(1) pos len(2) this]
    show "SmallVector_copy N this other st = Inl (UB NullDeref)"
      using unf len by (simp add: ebind_simps)
  }
qed


text \<open>
  Claim C4 (as amended). Neither \<open>grow\<close> nor \<open>copy_from_other\<close> tests the pointer that
  \<open>malloc\<close> returns, and neither raises an assertion. Let the allocator refuse the next
  request. \<open>grow\<close> beyond the capacity of a container without elements completes: it has
  set the capacity to the requested minimum, frees the heap block the container owned, and
  leaves the data pointer null, so the state is not the one before the call. With elements
  in the container, relocating them writes through the null pointer. Copy construction
  from a heap-mode source behaves alike: without elements it completes with a null data
  pointer, with elements it writes through the null pointer.
\<close>

theorem allocation_failure_unchecked:
  assumes h: "holds N st this xs" and v: "objs st this = Some v"
    and no: "refuse st (mallocs st)"
  shows "(\<forall>m. m_capacity v < m \<longrightarrow>
            (xs = [] \<longrightarrow>
               (\<exists>st'. grow this m st = Inr st' \<and> st' \<noteq> st \<and>
                  objs st' this = Some \<lparr>m_elements = Null, m_size = 0, m_capacity = m\<rparr> \<and>
                  (\<forall>b. m_elements v = HeapBlk b \<longrightarrow> mem st' (HeapBlk b) = None))) \<and>
            (xs \<noteq> [] \<longrightarrow> grow this m st = Inl (UB NullDeref))) \<and>
         (\<forall>a. a \<noteq> this \<and> m_elements v \<noteq> SmallBuf this \<longrightarrow>
            (xs = [] \<longrightarrow>
               (\<exists>st'. SmallVector_copy N a this st = Inr st' \<and>
                  objs st' a = Some \<lparr>m_elements = Null, m_size = 0,
                                      m_capacity = m_capacity v\<rparr>)) \<and>
            (xs \<noteq> [] \<longrightarrow> SmallVector_copy N a this st = Inl (UB NullDeref)))"
proof (intro conjI allI impI)
  fix m assume m: "m_capacity v < m" and e: "xs = []"
  from grow_refused_empty[OF _ v m no, of N] h e obtain st' where
    g: "grow this m st = Inr st'"
    and o: "objs st' = (objs st)(this \<mapsto> \<lparr>m_elements = Null, m_size = 0, m_capacity = m\<rparr>)"
    and f: "\<forall>b. m_elements v = HeapBlk b \<longrightarrow> mem st' (HeapBlk b) = None" by blast
  have "objs st' this \<noteq> objs st this" using o v m by (cases v) auto
  then have "st' \<noteq> st" by auto
  then show "\<exists>st'. grow this m st = Inr st' \<and> st' \<noteq> st \<and>
                  objs st' this = Some \<lparr>m_elements = Null, m_size = 0, m_capacity = m\<rparr> \<and>
                  (\<forall>b. m_elements v = HeapBlk b \<longrightarrow> mem st' (HeapBlk b) = None)"
    using g o f by auto
next
  fix m assume "m_capacity v < m" and "xs \<noteq> []"
  then show "grow this m st = Inl (UB NullDeref)"
    using grow_refused_nonempty[OF h v _ _ no] by simp
next
  fix a assume a: "a \<noteq> this \<and> m_elements v \<noteq> SmallBuf this" and e: "xs = []"
  then show "\<exists>st'. SmallVector_copy N a this st = Inr st' \<and>
                  objs st' a = Some \<lparr>m_elements = Null, m_size = 0,
                                      m_capacity = m_capacity v\<rparr>"
    using SmallVector_copy_refused(1)[OF h v _ _ no, of a] by simp
next
  fix a assume a: "a \<noteq> this \<and> m_elements v \<noteq> SmallBuf this" and e: "xs \<noteq> []"
  then show "SmallVector_copy N a this st = Inl (UB NullDeref)"
    using SmallVector_copy_refused(2)[OF h v _ _ no, of a] by simp
qed

text \<open>
  No assertion and no pre-call state: with an allocator that refuses, \<open>reserve(8)\<close> on a
  fresh \<open>SmallVector<T, 4>\<close> returns normally with capacity 8 and a null data pointer;
  after one granted \<open>reserve(8)\<close> a refused \<open>reserve(16)\<close> has freed the old block; with
  one element the refused \<open>reserve(8)\<close> dereferences the null pointer; a copy of an empty
  heap-mode container has a null data pointer.
\<close>

theorem allocation_failure_unchecked_counterexample:
  "ebind (SmallVector_default 4 0 (st_oom_after 0 :: nat state)) (\<lambda>s. Inr (objs s 0)) =
     Inr (Some \<lparr>m_elements = SmallBuf 0, m_size = 0, m_capacity = 4\<rparr>) \<and>
   ebind (ebind (SmallVector_default 4 0 (st_oom_after 0 :: nat state)) (reserve 0 8))
     (\<lambda>s. Inr (objs s 0)) =
     Inr (Some \<lparr>m_elements = Null, m_size = 0, m_capacity = 8\<rparr>) \<and>
   ebind (ebind (ebind (SmallVector_default 4 0 (st_oom_after 1 :: nat state)) (reserve 0 8))
     (reserve 0 16)) (\<lambda>s. Inr (objs s 0, mem s (HeapBlk 0))) =
     Inr (Some \<lparr>m_elements = Null, m_size = 0, m_capacity = 16\<rparr>, None) \<and>
   ebind (SmallVector_init 4 [10 :: nat] 0 (st_oom_after 0)) (reserve 0 8) =
     Inl (UB NullDeref) \<and>
   ebind (ebind (SmallVector_default 4 0 (st_oom_after 1 :: nat state)) (reserve 0 8))
     (\<lambda>s. ebind (SmallVector_copy 4 1 0 s) (\<lambda>s'. Inr (objs s' 1))) =
     Inr (Some \<lparr>m_elements = Null, m_size = 0, m_capacity = 8\<rparr>)"
  by (simp add: sv_eval)


text \<open>
  An empty and a one-element inline container under an allocator that refuses at once, and
  an empty and a five-element heap-mode container under one that refuses its second request.
\<close>

theorem allocation_failure_unchecked_witness:
  "(\<exists>S v. SmallVector_default 4 0 (st_oom_after 0 :: nat state) = Inr S \<and>
      holds 4 S 0 [] \<and> objs S 0 = Some v \<and> refuse S (mallocs S) \<and> m_capacity v < 8 \<and>
      (\<exists>st'. grow 0 8 S = Inr st' \<and> st' \<noteq> S \<and>
         objs st' 0 = Some \<lparr>m_elements = Null, m_size = 0, m_capacity = 8\<rparr>)) \<and>
   (\<exists>S v. SmallVector_init 4 [10 :: nat] 0 (st_oom_after 0) = Inr S \<and>
      holds 4 S 0 [10] \<and> objs S 0 = Some v \<and> refuse S (mallocs S) \<and> m_capacity v < 8 \<and>
      [10 :: nat] \<noteq> [] \<and> grow 0 8 S = Inl (UB NullDeref)) \<and>
   (\<exists>S v. ebind (SmallVector_default 4 0 (st_oom_after 1 :: nat state)) (reserve 0 8) = Inr S \<and>
      holds 4 S 0 [] \<and> objs S 0 = Some v \<and> refuse S (mallocs S) \<and>
      (1 :: nat) \<noteq> 0 \<and> m_elements v \<noteq> SmallBuf 0 \<and>
      (\<exists>st'. SmallVector_copy 4 1 0 S = Inr st' \<and>
         objs st' 1 = Some \<lparr>m_elements = Null, m_size = 0, m_capacity = m_capacity v\<rparr>)) \<and>
   (\<exists>S v. ebind (SmallVector_default 4 0 (st_oom_after 1 :: nat state))
             (foreach [10, 20, 30, 40, 50] (append_value 0)) = Inr S \<and>
      holds 4 S 0 [10, 20, 30, 40, 50] \<and> objs S 0 = Some v \<and> refuse S (mallocs S) \<and>
      (1 :: nat) \<noteq> 0 \<and> m_elements v \<noteq> SmallBuf 0 \<and>
      SmallVector_copy 4 1 0 S = Inl (UB NullDeref))"
proof (intro conjI)
  have "\<exists>S. SmallVector_default 4 0 (st_oom_after 0 :: nat state) = Inr S \<and>
      holds 4 S 0 [] \<and> objs S 0 = Some \<lparr>m_elements = SmallBuf 0, m_size = 0, m_capacity = 4\<rparr> \<and>
      refuse S (mallocs S)"
    by (simp add: sv_eval holds_def)
  then obtain S where r: "SmallVector_default 4 0 (st_oom_after 0 :: nat state) = Inr S"
    and h: "holds 4 S 0 []"
    and v: "objs S 0 = Some \<lparr>m_elements = SmallBuf 0, m_size = 0, m_capacity = 4\<rparr>"
    and no: "refuse S (mallocs S)" by blast
  from allocation_failure_unchecked[OF h v no, THEN conjunct1, rule_format, of 8]
  have "\<exists>st'. grow 0 8 S = Inr st' \<and> st' \<noteq> S \<and>
         objs st' 0 = Some \<lparr>m_elements = Null, m_size = 0, m_capacity = 8\<rparr>"
    by (auto simp: word_less_nat_alt)
  then show "\<exists>S v. SmallVector_default 4 0 (st_oom_after 0 :: nat state) = Inr S \<and>
      holds 4 S 0 [] \<and> objs S 0 = Some v \<and> refuse S (mallocs S) \<and> m_capacity v < 8 \<and>
      (\<exists>st'. grow 0 8 S = Inr st' \<and> st' \<noteq> S \<and>
         objs st' 0 = Some \<lparr>m_elements = Null, m_size = 0, m_capacity = 8\<rparr>)"
    using r h v no by (auto simp: word_less_nat_alt)
next
  have "\<exists>S. SmallVector_init 4 [10 :: nat] 0 (st_oom_after 0) = Inr S \<and>
      holds 4 S 0 [10] \<and> objs S 0 = Some \<lparr>m_elements = SmallBuf 0, m_size = 1, m_capacity = 4\<rparr> \<and>
      refuse S (mallocs S)"
    by (simp add: sv_eval holds_def)
  then obtain S where r: "SmallVector_init 4 [10 :: nat] 0 (st_oom_after 0) = Inr S"
    and h: "holds 4 S 0 [10]"
    and v: "objs S 0 = Some \<lparr>m_elements = SmallBuf 0, m_size = 1, m_capacity = 4\<rparr>"
    and no: "refuse S (mallocs S)" by blast
  from allocation_failure_unchecked[OF h v no, THEN conjunct1, rule_format, of 8]
  have "grow 0 8 S = Inl (UB NullDeref)" by (auto simp: word_less_nat_alt)
  then show "\<exists>S v. SmallVector_init 4 [10 :: nat] 0 (st_oom_after 0) = Inr S \<and>
      holds 4 S 0 [10] \<and> objs S 0 = Some v \<and> refuse S (mallocs S) \<and> m_capacity v < 8 \<and>
      [10 :: nat] \<noteq> [] \<and> grow 0 8 S = Inl (UB NullDeref)"
    using r h v no by (auto simp: word_less_nat_alt)
next
  have "\<exists>S. ebind (SmallVector_default 4 0 (st_oom_after 1 :: nat state)) (reserve 0 8) = Inr S \<and>
      holds 4 S 0 [] \<and> objs S 0 = Some \<lparr>m_elements = HeapBlk 0, m_size = 0, m_capacity = 8\<rparr> \<and>
      refuse S (mallocs S)"
    by (simp add: sv_eval holds_def)
  then obtain S where
    r: "ebind (SmallVector_default 4 0 (st_oom_after 1 :: nat state)) (reserve 0 8) = Inr S"
    and h: "holds 4 S 0 []"
    and v: "objs S 0 = Some \<lparr>m_elements = HeapBlk 0, m_size = 0, m_capacity = 8\<rparr>"
    and no: "refuse S (mallocs S)" by blast
  from allocation_failure_unchecked[OF h v no, THEN conjunct2, rule_format, of 1]
  have "\<exists>st'. SmallVector_copy 4 1 0 S = Inr st' \<and>
         objs st' 1 = Some \<lparr>m_elements = Null, m_size = 0, m_capacity = 8\<rparr>"
    by auto
  then show "\<exists>S v. ebind (SmallVector_default 4 0 (st_oom_after 1 :: nat state)) (reserve 0 8) = Inr S \<and>
      holds 4 S 0 [] \<and> objs S 0 = Some v \<and> refuse S (mallocs S) \<and>
      (1 :: nat) \<noteq> 0 \<and> m_elements v \<noteq> SmallBuf 0 \<and>
      (\<exists>st'. SmallVector_copy 4 1 0 S = Inr st' \<and>
         objs st' 1 = Some \<lparr>m_elements = Null, m_size = 0, m_capacity = m_capacity v\<rparr>)"
    using r h v no by auto
next
  have "\<exists>S. ebind (SmallVector_default 4 0 (st_oom_after 1 :: nat state))
             (foreach [10, 20, 30, 40, 50] (append_value 0)) = Inr S \<and>
      holds 4 S 0 [10, 20, 30, 40, 50] \<and>
      objs S 0 = Some \<lparr>m_elements = HeapBlk 0, m_size = 5, m_capacity = 8\<rparr> \<and>
      refuse S (mallocs S)"
    by (simp add: sv_eval holds_def)
  then obtain S where
    r: "ebind (SmallVector_default 4 0 (st_oom_after 1 :: nat state))
             (foreach [10, 20, 30, 40, 50] (append_value 0)) = Inr S"
    and h: "holds 4 S 0 [10, 20, 30, 40, 50]"
    and v: "objs S 0 = Some \<lparr>m_elements = HeapBlk 0, m_size = 5, m_capacity = 8\<rparr>"
    and no: "refuse S (mallocs S)" by blast
  from allocation_failure_unchecked[OF h v no, THEN conjunct2, rule_format, of 1]
  have "SmallVector_copy 4 1 0 S = Inl (UB NullDeref)" by auto
  then show "\<exists>S v. ebind (SmallVector_default 4 0 (st_oom_after 1 :: nat state))
             (foreach [10, 20, 30, 40, 50] (append_value 0)) = Inr S \<and>
      holds 4 S 0 [10, 20, 30, 40, 50] \<and> objs S 0 = Some v \<and> refuse S (mallocs S) \<and>
      (1 :: nat) \<noteq> 0 \<and> m_elements v \<noteq> SmallBuf 0 \<and>
      SmallVector_copy 4 1 0 S = Inl (UB NullDeref)"
    using r h v no by auto
qed

section \<open>Capacity across the operations\<close>

text \<open>
  What an operation that completes leaves behind. A run that ends in undefined behaviour or
  in a failed assertion has no state to speak of, so the facts below start from
  \<open>op ... = Inr st'\<close>.
\<close>

lemma ebind_Inr_iff: "ebind m f = Inr y \<longleftrightarrow> (\<exists>x. m = Inr x \<and> f x = Inr y)"
  by (cases m) (simp_all add: ebind_def)

lemma foreach_preserves:
  assumes "\<And>x s s'. f x s = Inr s' \<Longrightarrow> g s' = g s"
  shows "foreach xs f s = Inr s' \<Longrightarrow> g s' = g s"
proof (induction xs arbitrary: s)
  case Nil
  then show ?case by simp
next
  case (Cons x xs)
  then obtain s1 where "f x s = Inr s1" "foreach xs f s1 = Inr s'"
    by (auto simp: ebind_Inr_iff)
  then show ?case using assms Cons.IH by metis
qed

lemma construct_at_objs: "construct_at p i x s = Inr s' \<Longrightarrow> objs s' = objs s"
  by (auto simp: construct_at_def ebind_Inr_iff split: if_splits)

lemma assign_at_objs: "assign_at p i x s = Inr s' \<Longrightarrow> objs s' = objs s"
  by (auto simp: assign_at_def ebind_Inr_iff split: if_splits option.splits)

lemma uninitialized_copy_objs: "uninitialized_copy src n dst s = Inr s' \<Longrightarrow> objs s' = objs s"
  unfolding uninitialized_copy_def
  by (erule foreach_preserves[rotated]) (auto simp: ebind_Inr_iff dest: construct_at_objs)

lemma fill_objs: "fill this x st = Inr st' \<Longrightarrow> objs st' = objs st"
  unfolding fill_def
  by (auto simp: ebind_Inr_iff elim!: foreach_preserves[rotated] dest: assign_at_objs)

lemma member_Inr_iff: "member f a s = Inr y \<longleftrightarrow> (\<exists>v. objs s a = Some v \<and> y = f v)"
  by (auto simp: member_def split: option.splits)

lemma assign_member_Inr_iff:
  "assign_member f a s = Inr s' \<longleftrightarrow>
     (\<exists>v. objs s a = Some v \<and> s' = s\<lparr>objs := (objs s)(a \<mapsto> f v)\<rparr>)"
  by (auto simp: assign_member_def split: option.splits)

lemma ebind_InrE:
  assumes "ebind m f = Inr y"
  obtains x where "m = Inr x" "f x = Inr y"
  using assms by (auto simp: ebind_Inr_iff)

lemma copy_from_other_fields:
  assumes c: "copy_from_other this other st = Inr st'" and ne: "this \<noteq> other"
    and o: "objs st other = Some ov"
  shows "\<exists>p. objs st' this = Some \<lparr>m_elements = p, m_size = m_size ov, m_capacity = m_capacity ov\<rparr>"
proof -
  from c[unfolded copy_from_other_def] obtain small where
    sm: "is_small other st = Inr small" and
    c1: "ebind (if small
            then assign_member (\<lambda>v. v\<lparr>m_elements := small_buffer this\<rparr>) this st
            else ebind (member m_capacity other st) (\<lambda>cap.
                 case malloc (unat cap) st of (p, st1) \<Rightarrow>
                   assign_member (\<lambda>v. v\<lparr>m_elements := p\<rparr>) this st1)) (\<lambda>st2.
     ebind (member m_elements other st2) (\<lambda>first.
     ebind (member m_size other st2) (\<lambda>n.
     ebind (member m_elements this st2) (\<lambda>dst.
     ebind (uninitialized_copy first (unat n) dst st2) (\<lambda>st3.
     ebind (member m_capacity other st3) (\<lambda>cap.
     ebind (assign_member (\<lambda>v. v\<lparr>m_capacity := cap\<rparr>) this st3) (\<lambda>st4.
     ebind (member m_size other st4) (\<lambda>sz.
     assign_member (\<lambda>v. v\<lparr>m_size := sz\<rparr>) this st4)))))))) = Inr st'"
    by (rule ebind_InrE)
  from c1 obtain st2 where
    s2: "(if small
            then assign_member (\<lambda>v. v\<lparr>m_elements := small_buffer this\<rparr>) this st
            else ebind (member m_capacity other st) (\<lambda>cap.
                 case malloc (unat cap) st of (p, st1) \<Rightarrow>
                   assign_member (\<lambda>v. v\<lparr>m_elements := p\<rparr>) this st1)) = Inr st2"
    and c2: "ebind (member m_elements other st2) (\<lambda>first.
     ebind (member m_size other st2) (\<lambda>n.
     ebind (member m_elements this st2) (\<lambda>dst.
     ebind (uninitialized_copy first (unat n) dst st2) (\<lambda>st3.
     ebind (member m_capacity other st3) (\<lambda>cap.
     ebind (assign_member (\<lambda>v. v\<lparr>m_capacity := cap\<rparr>) this st3) (\<lambda>st4.
     ebind (member m_size other st4) (\<lambda>sz.
     assign_member (\<lambda>v. v\<lparr>m_size := sz\<rparr>) this st4))))))) = Inr st'"
    by (rule ebind_InrE)
  have o2: "objs st2 other = Some ov"
    using s2 o ne
    by (auto simp: assign_member_Inr_iff member_Inr_iff ebind_Inr_iff malloc_def
        split: if_splits)
  from c2 obtain first where mf: "member m_elements other st2 = Inr first"
    and c3: "ebind (member m_size other st2) (\<lambda>n.
     ebind (member m_elements this st2) (\<lambda>dst.
     ebind (uninitialized_copy first (unat n) dst st2) (\<lambda>st3.
     ebind (member m_capacity other st3) (\<lambda>cap.
     ebind (assign_member (\<lambda>v. v\<lparr>m_capacity := cap\<rparr>) this st3) (\<lambda>st4.
     ebind (member m_size other st4) (\<lambda>sz.
     assign_member (\<lambda>v. v\<lparr>m_size := sz\<rparr>) this st4)))))) = Inr st'"
    by (rule ebind_InrE)
  from c3 obtain n where mn: "member m_size other st2 = Inr n"
    and c4: "ebind (member m_elements this st2) (\<lambda>dst.
     ebind (uninitialized_copy first (unat n) dst st2) (\<lambda>st3.
     ebind (member m_capacity other st3) (\<lambda>cap.
     ebind (assign_member (\<lambda>v. v\<lparr>m_capacity := cap\<rparr>) this st3) (\<lambda>st4.
     ebind (member m_size other st4) (\<lambda>sz.
     assign_member (\<lambda>v. v\<lparr>m_size := sz\<rparr>) this st4))))) = Inr st'"
    by (rule ebind_InrE)
  from c4 obtain dst where dst: "member m_elements this st2 = Inr dst"
    and c5: "ebind (uninitialized_copy first (unat n) dst st2) (\<lambda>st3.
     ebind (member m_capacity other st3) (\<lambda>cap.
     ebind (assign_member (\<lambda>v. v\<lparr>m_capacity := cap\<rparr>) this st3) (\<lambda>st4.
     ebind (member m_size other st4) (\<lambda>sz.
     assign_member (\<lambda>v. v\<lparr>m_size := sz\<rparr>) this st4)))) = Inr st'"
    by (rule ebind_InrE)
  from c5 obtain st3 where u: "uninitialized_copy first (unat n) dst st2 = Inr st3"
    and rest: "ebind (member m_capacity other st3) (\<lambda>cap.
       ebind (assign_member (\<lambda>v. v\<lparr>m_capacity := cap\<rparr>) this st3) (\<lambda>st4.
       ebind (member m_size other st4) (\<lambda>sz.
       assign_member (\<lambda>v. v\<lparr>m_size := sz\<rparr>) this st4))) = Inr st'"
    by (rule ebind_InrE)
  obtain v2 where v2: "objs st2 this = Some v2" "m_elements v2 = dst"
    using dst by (auto simp: member_Inr_iff)
  have o3: "objs st3 = objs st2" using uninitialized_copy_objs[OF u] .
  show ?thesis
    using rest o2 v2 o3 ne
    by (cases v2) (auto simp: ebind_Inr_iff member_Inr_iff assign_member_Inr_iff)
qed

lemma steal_from_other_fields:
  assumes c: "steal_from_other this other st = Inr st'" and o: "objs st other = Some ov"
  shows "\<exists>p. objs st' this = Some \<lparr>m_elements = p, m_size = m_size ov, m_capacity = m_capacity ov\<rparr>"
proof -
  from c[unfolded steal_from_other_def] obtain small where
    sm: "is_small other st = Inr small" and
    c1: "ebind (if small
            then ebind (member m_elements other st) (\<lambda>first.
                 ebind (member m_size other st) (\<lambda>n.
                 ebind (uninitialized_copy first (unat n) (small_buffer this) st) (\<lambda>st1.
                 assign_member (\<lambda>v. v\<lparr>m_elements := small_buffer this\<rparr>) this st1)))
            else ebind (member m_elements other st) (\<lambda>p.
                 assign_member (\<lambda>v. v\<lparr>m_elements := p\<rparr>) this st)) (\<lambda>st2.
     ebind (member m_capacity other st2) (\<lambda>cap.
     ebind (assign_member (\<lambda>v. v\<lparr>m_capacity := cap\<rparr>) this st2) (\<lambda>st3.
     ebind (member m_size other st3) (\<lambda>sz.
     ebind (assign_member (\<lambda>v. v\<lparr>m_size := sz\<rparr>) this st3) (\<lambda>st4.
     assign_member (\<lambda>v. v\<lparr>m_elements := Null\<rparr>) other st4))))) = Inr st'"
    by (rule ebind_InrE)
  from c1 obtain st2 where
    s2: "(if small
            then ebind (member m_elements other st) (\<lambda>first.
                 ebind (member m_size other st) (\<lambda>n.
                 ebind (uninitialized_copy first (unat n) (small_buffer this) st) (\<lambda>st1.
                 assign_member (\<lambda>v. v\<lparr>m_elements := small_buffer this\<rparr>) this st1)))
            else ebind (member m_elements other st) (\<lambda>p.
                 assign_member (\<lambda>v. v\<lparr>m_elements := p\<rparr>) this st)) = Inr st2"
    and rest: "ebind (member m_capacity other st2) (\<lambda>cap.
       ebind (assign_member (\<lambda>v. v\<lparr>m_capacity := cap\<rparr>) this st2) (\<lambda>st3.
       ebind (member m_size other st3) (\<lambda>sz.
       ebind (assign_member (\<lambda>v. v\<lparr>m_size := sz\<rparr>) this st3) (\<lambda>st4.
       assign_member (\<lambda>v. v\<lparr>m_elements := Null\<rparr>) other st4)))) = Inr st'"
    by (rule ebind_InrE)
  have "\<exists>v2. objs st2 this = Some v2 \<and>
     (\<exists>ov2. objs st2 other = Some ov2 \<and> m_size ov2 = m_size ov \<and> m_capacity ov2 = m_capacity ov)"
    using s2 o
    by (cases ov)
       (auto simp: assign_member_Inr_iff member_Inr_iff ebind_Inr_iff
        dest!: uninitialized_copy_objs split: if_splits)
  then obtain v2 ov2 where v2: "objs st2 this = Some v2" and ov2: "objs st2 other = Some ov2"
    "m_size ov2 = m_size ov" "m_capacity ov2 = m_capacity ov" by blast
  show ?thesis
    using rest v2 ov2
    by (cases v2; cases ov2)
       (auto simp: ebind_Inr_iff member_Inr_iff assign_member_Inr_iff split: if_splits)
qed


subsection \<open>Appending, once and in a loop\<close>

lemma capacity_kept_iff:
  "capacity_kept this st st' \<longleftrightarrow>
     (\<exists>v v'. objs st this = Some v \<and> objs st' this = Some v' \<and> m_capacity v \<le> m_capacity v')"
  by (auto simp: capacity_kept_def split: option.splits)

lemma capacity_ok_iff:
  "capacity_ok N st this \<longleftrightarrow>
     (\<exists>v. objs st this = Some v \<and> N \<le> m_capacity v \<and> m_size v \<le> m_capacity v)"
  by (auto simp: capacity_ok_def split: option.splits)

lemma capacity_kept_refl: "objs st this = Some v \<Longrightarrow> capacity_kept this st st"
  by (simp add: capacity_kept_iff)

lemma capacity_kept_trans:
  "capacity_kept this st st1 \<Longrightarrow> capacity_kept this st1 st2 \<Longrightarrow> capacity_kept this st st2"
  by (auto simp: capacity_kept_iff)

lemma holds_capacity_ok: "holds N st this xs \<Longrightarrow> capacity_ok N st this"
  unfolding holds_iff capacity_ok_iff by (auto simp: word_le_nat_alt)

lemma append_value_partial:
  assumes h: "holds N st this xs" and ok: "\<not> refuse st (mallocs st)"
    and a: "append_value this x st = Inr st'"
  shows "holds N st' this (xs @ [x]) \<and> refuse st' = refuse st \<and> capacity_kept this st st'"
proof -
  from holds_obj[OF h] obtain v where v: "objs st this = Some v" by blast
  show ?thesis
  proof (cases "m_size v < m_capacity v")
    case True
    from append_value_room[OF h v True, of x] a v show ?thesis
      by (auto simp: capacity_kept_iff)
  next
    case False
    then have full: "m_capacity v \<le> m_size v" by simp
    show ?thesis
    proof (cases "unat (m_capacity v) < 2 ^ 31")
      case True
      from append_value_grow[OF h v full True ok, of x] a v double_grows[OF True]
      show ?thesis by (auto simp: capacity_kept_iff)
    next
      case False
      then have "2 ^ 31 \<le> unat (m_capacity v)" by simp
      from append_value_overflow(2)[OF h v full this, of x] a show ?thesis by simp
    qed
  qed
qed

lemma append_ref_value:
  "append_ref this src i st = Inr st' \<Longrightarrow> \<exists>x. append_value this x st = Inr st'"
  unfolding append_ref_def append_value_def ebind_Inr_iff by blast

lemma foreach_append_ref_partial:
  "holds N st this xs \<Longrightarrow> \<forall>k. \<not> refuse st k \<Longrightarrow>
   foreach js (append_ref this src) st = Inr st' \<Longrightarrow>
   \<exists>ys. holds N st' this (xs @ ys) \<and> refuse st' = refuse st \<and> capacity_kept this st st'"
proof (induction js arbitrary: st xs)
  case Nil
  then show ?case using holds_obj[OF Nil.prems(1)]
    by (intro exI[of _ "[]"]) (auto simp: capacity_kept_iff)
next
  case (Cons j js)
  from Cons.prems(3) obtain st1 where a: "append_ref this src j st = Inr st1"
    and f: "foreach js (append_ref this src) st1 = Inr st'"
    by (auto simp: ebind_Inr_iff)
  from append_ref_value[OF a] obtain x where "append_value this x st = Inr st1" by blast
  from append_value_partial[OF Cons.prems(1) _ this] Cons.prems(2)
  have h1: "holds N st1 this (xs @ [x])" and r1: "refuse st1 = refuse st"
    and k1: "capacity_kept this st st1" by auto
  from Cons.IH[OF h1 _ f] r1 Cons.prems(2) obtain ys where
    "holds N st' this ((xs @ [x]) @ ys)" "refuse st' = refuse st1" "capacity_kept this st1 st'"
    by auto
  then show ?case using r1 k1 capacity_kept_trans
    by (intro exI[of _ "x # ys"]) auto
qed

lemma foreach_append_value_partial:
  "holds N st this xs \<Longrightarrow> \<forall>k. \<not> refuse st k \<Longrightarrow>
   foreach ys (append_value this) st = Inr st' \<Longrightarrow>
   holds N st' this (xs @ ys) \<and> refuse st' = refuse st \<and> capacity_kept this st st'"
proof (induction ys arbitrary: st xs)
  case Nil
  then show ?case using holds_obj[OF Nil.prems(1)] by (auto simp: capacity_kept_iff)
next
  case (Cons y ys)
  from Cons.prems(3) obtain st1 where a: "append_value this y st = Inr st1"
    and f: "foreach ys (append_value this) st1 = Inr st'"
    by (auto simp: ebind_Inr_iff)
  from append_value_partial[OF Cons.prems(1) _ a] Cons.prems(2)
  have h1: "holds N st1 this (xs @ [y])" and r1: "refuse st1 = refuse st"
    and k1: "capacity_kept this st st1" by auto
  from Cons.IH[OF h1 _ f] r1 Cons.prems(2) have
    "holds N st' this ((xs @ [y]) @ ys)" "refuse st' = refuse st1" "capacity_kept this st1 st'"
    by auto
  then show ?case using r1 k1 capacity_kept_trans by auto
qed


subsection \<open>The public operations, one by one\<close>

lemma reserve_partial:
  assumes h: "holds N st this xs" and ok: "\<not> refuse st (mallocs st)"
    and r: "reserve this m st = Inr st'"
  shows "capacity_kept this st st' \<and> capacity_ok N st' this \<and> holds N st' this xs \<and>
         refuse st' = refuse st"
proof -
  from holds_obj[OF h] obtain v where v: "objs st this = Some v" by blast
  from reserve_holds[OF h v ok, of m] r obtain
    h': "holds N st' this xs" and o': "objs st' = (if m \<le> m_capacity v then objs st
                 else (objs st)(this \<mapsto> \<lparr>m_elements = HeapBlk (mallocs st),
                                        m_size = m_size v, m_capacity = m\<rparr>))"
    and r': "refuse st' = refuse st" by auto
  have "capacity_kept this st st'" using v o' by (auto simp: capacity_kept_iff)
  then show ?thesis using holds_capacity_ok[OF h'] h' r' by simp
qed

lemma extend_partial:
  assumes h: "holds N st this xs" and ok: "\<forall>k. \<not> refuse st k"
    and e: "extend_sv this other st = Inr st'"
  shows "capacity_kept this st st' \<and> capacity_ok N st' this"
proof -
  from e obtain first and n :: uint where
    "foreach [0..<unat n] (append_ref this first) st = Inr st'"
    by (auto simp: extend_sv_def ebind_Inr_iff)
  from foreach_append_ref_partial[OF h ok this] show ?thesis
    using holds_capacity_ok by blast
qed

lemma remove_last_partial:
  assumes h: "holds N st this xs" and r: "remove_last this st = Inr st'"
  shows "capacity_kept this st st' \<and> capacity_ok N st' this"
proof -
  from holds_obj[OF h] obtain v where v: "objs st this = Some v" by blast
  have "xs \<noteq> []" using remove_last_empty[of N st this] h r by auto
  from remove_last_ok[OF h v this] r have
    h': "holds N st' this (butlast xs)"
    and o': "objs st' = (objs st)(this \<mapsto> v\<lparr>m_size := m_size v - 1\<rparr>)" by auto
  have "capacity_kept this st st'" using v o' by (simp add: capacity_kept_iff)
  then show ?thesis using holds_capacity_ok[OF h'] by simp
qed

lemma remove_and_reorder_partial:
  assumes h: "holds N st this xs" and r: "remove_and_reorder this index st = Inr st'"
  shows "capacity_kept this st st' \<and> capacity_ok N st' this"
proof -
  from holds_obj[OF h] obtain v where v: "objs st this = Some v" by blast
  have i: "unat index < length xs"
    using remove_and_reorder_out_of_range[OF h, of index] r by (cases "unat index < length xs") auto
  from remove_and_reorder_ok[OF h i] r have
    h': "holds N st' this (butlast (xs[unat index := last xs]))" by auto
  from r have "\<exists>p. objs st' this = Some (v\<lparr>m_size := m_size v - 1\<rparr>)"
    using v
    by (auto simp: remove_and_reorder_def ebind_Inr_iff member_Inr_iff assign_member_Inr_iff
        is_index_in_range_def BLI_assert_def destruct_element_def destruct_at_def
        assign_at_def split: if_splits option.splits)
  then have "capacity_kept this st st'" using v by (auto simp: capacity_kept_iff)
  then show ?thesis using holds_capacity_ok[OF h'] by simp
qed

lemma fill_partial:
  assumes h: "holds N st this xs" and r: "fill this x st = Inr st'"
  shows "capacity_kept this st st' \<and> capacity_ok N st' this"
proof -
  from holds_obj[OF h] obtain v where v: "objs st this = Some v" by blast
  have o: "objs st' = objs st" using fill_objs[OF r] .
  have "capacity_ok N st this" using holds_capacity_ok[OF h] .
  then show ?thesis using o v by (auto simp: capacity_kept_iff capacity_ok_iff)
qed

lemma copy_assign_partial:
  assumes h: "holds N st this xs" and co: "capacity_ok N st other"
    and r: "copy_assign this other st = Inr st'"
  shows "capacity_ok N st' this \<and> member m_capacity this st' = member m_capacity other st"
proof (cases "this = other")
  case True
  then show ?thesis using r co by (simp add: copy_assign_def)
next
  case False
  from holds_obj[OF h] obtain v where v: "objs st this = Some v" by blast
  from co obtain ov where ov: "objs st other = Some ov" "N \<le> m_capacity ov"
    "m_size ov \<le> m_capacity ov" by (auto simp: capacity_ok_iff)
  from teardown_ok[OF h v] obtain st1 where
    t: "destruct_elements_and_free_memory this st = Inr st1" and o1: "objs st1 = objs st" by blast
  from r t False have c: "copy_from_other this other st1 = Inr st'"
    by (simp add: copy_assign_def ebind_simps)
  from copy_from_other_fields[OF c False] ov o1 obtain p where
    "objs st' this = Some \<lparr>m_elements = p, m_size = m_size ov, m_capacity = m_capacity ov\<rparr>"
    by auto
  then show ?thesis using ov by (simp add: capacity_ok_iff)
qed

lemma move_assign_partial:
  assumes h: "holds N st this xs" and co: "capacity_ok N st other"
    and r: "move_assign this other st = Inr st'"
  shows "capacity_ok N st' this \<and> member m_capacity this st' = member m_capacity other st"
proof -
  from holds_obj[OF h] obtain v where v: "objs st this = Some v" by blast
  from co obtain ov where ov: "objs st other = Some ov" "N \<le> m_capacity ov"
    "m_size ov \<le> m_capacity ov" by (auto simp: capacity_ok_iff)
  from teardown_ok[OF h v] obtain st1 where
    t: "destruct_elements_and_free_memory this st = Inr st1" and o1: "objs st1 = objs st" by blast
  from r t have c: "steal_from_other this other st1 = Inr st'"
    by (simp add: move_assign_def ebind_simps)
  from steal_from_other_fields[OF c] ov o1 obtain p where
    "objs st' this = Some \<lparr>m_elements = p, m_size = m_size ov, m_capacity = m_capacity ov\<rparr>"
    by auto
  then show ?thesis using ov by (simp add: capacity_ok_iff)
qed

lemma SmallVector_default_partial:
  "SmallVector_default N a st = Inr st' \<Longrightarrow> capacity_ok N st' a"
  using SmallVector_default_holds[of N a st] holds_capacity_ok by fastforce

lemma SmallVector_sized_partial:
  assumes ok: "\<forall>k. \<not> refuse st k" and r: "SmallVector_sized N d count a st = Inr st'"
  shows "capacity_ok N st' a"
  using SmallVector_sized_holds[OF ok, of N d count a] r holds_capacity_ok by fastforce

lemma SmallVector_init_partial:
  assumes ok: "\<forall>k. \<not> refuse st k" and r: "SmallVector_init N vals a st = Inr st'"
  shows "capacity_ok N st' a"
proof -
  from SmallVector_default_holds[of N a st] obtain st0 where
    d: "SmallVector_default N a st = Inr st0" and h0: "holds N st0 a []"
    and r0: "refuse st0 = refuse st" by blast
  from r d obtain st1 where r1: "reserve a (of_nat (length vals)) st0 = Inr st1"
    and f: "foreach vals (append_value a) st1 = Inr st'"
    by (auto simp: SmallVector_init_def ebind_Inr_iff)
  from reserve_partial[OF h0 _ r1] ok r0 have h1: "holds N st1 a []"
    and ok1: "refuse st1 = refuse st" by auto
  from foreach_append_value_partial[OF h1 _ f] ok ok1 have "holds N st' a ([] @ vals)" by auto
  then show ?thesis using holds_capacity_ok by blast
qed

lemma SmallVector_copy_partial:
  assumes h: "holds N st this xs" and ne: "a \<noteq> this"
    and r: "SmallVector_copy N a this st = Inr st'"
  shows "capacity_ok N st' a"
proof -
  from holds_capacity_ok[OF h] obtain v where v: "objs st this = Some v" "N \<le> m_capacity v"
    "m_size v \<le> m_capacity v" by (auto simp: capacity_ok_iff)
  have "objs (new_object N a st) this = Some v" using v ne by (simp add: new_object_def)
  from copy_from_other_fields[OF r[unfolded SmallVector_copy_def] ne this] v
  show ?thesis by (auto simp: capacity_ok_iff)
qed

lemma SmallVector_move_partial:
  assumes h: "holds N st this xs" and ne: "a \<noteq> this"
    and r: "SmallVector_move N a this st = Inr st'"
  shows "capacity_ok N st' a"
proof -
  from holds_capacity_ok[OF h] obtain v where v: "objs st this = Some v" "N \<le> m_capacity v"
    "m_size v \<le> m_capacity v" by (auto simp: capacity_ok_iff)
  have "objs (new_object N a st) this = Some v" using v ne by (simp add: new_object_def)
  from steal_from_other_fields[OF r[unfolded SmallVector_move_def] this] v
  show ?thesis by (auto simp: capacity_ok_iff)
qed


text \<open>
  Claim C5 (as amended). Let \<open>this\<close> be a usable container and let the allocator grant every
  request. Whenever \<open>reserve\<close>, \<open>append\<close>, \<open>extend\<close>, \<open>remove_last\<close>, \<open>remove_and_reorder\<close>
  or \<open>fill\<close> completes, the capacity of \<open>this\<close> is at least what it was before and at least
  \<open>max N m_size\<close>. Copy and move assignment do not keep the capacity: when they complete,
  the capacity of \<open>this\<close> is the capacity the source had, whatever the target's was, and it
  is at least \<open>max N m_size\<close> provided that held for the source. Every constructor that
  completes (default, sized, initializer list, copy, move) leaves a container whose capacity
  is at least \<open>max N m_size\<close>.
\<close>

theorem capacity_invariant:
  assumes h: "holds N st this xs" and ok: "\<forall>k. \<not> refuse st k"
  shows "(\<forall>m st'. reserve this m st = Inr st' \<longrightarrow>
            capacity_kept this st st' \<and> capacity_ok N st' this) \<and>
         (\<forall>x st'. append_value this x st = Inr st' \<longrightarrow>
            capacity_kept this st st' \<and> capacity_ok N st' this) \<and>
         (\<forall>other st'. extend_sv this other st = Inr st' \<longrightarrow>
            capacity_kept this st st' \<and> capacity_ok N st' this) \<and>
         (\<forall>st'. remove_last this st = Inr st' \<longrightarrow>
            capacity_kept this st st' \<and> capacity_ok N st' this) \<and>
         (\<forall>index st'. remove_and_reorder this index st = Inr st' \<longrightarrow>
            capacity_kept this st st' \<and> capacity_ok N st' this) \<and>
         (\<forall>x st'. fill this x st = Inr st' \<longrightarrow>
            capacity_kept this st st' \<and> capacity_ok N st' this) \<and>
         (\<forall>other st'. capacity_ok N st other \<and> copy_assign this other st = Inr st' \<longrightarrow>
            capacity_ok N st' this \<and>
            member m_capacity this st' = member m_capacity other st) \<and>
         (\<forall>other st'. capacity_ok N st other \<and> move_assign this other st = Inr st' \<longrightarrow>
            capacity_ok N st' this \<and>
            member m_capacity this st' = member m_capacity other st) \<and>
         (\<forall>a st'. SmallVector_default N a st = Inr st' \<longrightarrow> capacity_ok N st' a) \<and>
         (\<forall>a d count st'. SmallVector_sized N d count a st = Inr st' \<longrightarrow>
            capacity_ok N st' a) \<and>
         (\<forall>a vals st'. SmallVector_init N vals a st = Inr st' \<longrightarrow> capacity_ok N st' a) \<and>
         (\<forall>a st'. a \<noteq> this \<and> SmallVector_copy N a this st = Inr st' \<longrightarrow>
            capacity_ok N st' a) \<and>
         (\<forall>a st'. a \<noteq> this \<and> SmallVector_move N a this st = Inr st' \<longrightarrow>
            capacity_ok N st' a)"
proof -
  have nr: "\<not> refuse st (mallocs st)" using ok by simp
  have 1: "\<forall>m st'. reserve this m st = Inr st' \<longrightarrow>
            capacity_kept this st st' \<and> capacity_ok N st' this"
    using reserve_partial[OF h nr] by blast
  have 2: "\<forall>x st'. append_value this x st = Inr st' \<longrightarrow>
            capacity_kept this st st' \<and> capacity_ok N st' this"
    using append_value_partial[OF h nr] holds_capacity_ok by blast
  have 3: "\<forall>other st'. extend_sv this other st = Inr st' \<longrightarrow>
            capacity_kept this st st' \<and> capacity_ok N st' this"
    using extend_partial[OF h ok] by blast
  have 4: "\<forall>st'. remove_last this st = Inr st' \<longrightarrow>
            capacity_kept this st st' \<and> capacity_ok N st' this"
    using remove_last_partial[OF h] by blast
  have 5: "\<forall>index st'. remove_and_reorder this index st = Inr st' \<longrightarrow>
            capacity_kept this st st' \<and> capacity_ok N st' this"
    using remove_and_reorder_partial[OF h] by blast
  have 6: "\<forall>x st'. fill this x st = Inr st' \<longrightarrow>
            capacity_kept this st st' \<and> capacity_ok N st' this"
    using fill_partial[OF h] by blast
  have 7: "\<forall>other st'. capacity_ok N st other \<and> copy_assign this other st = Inr st' \<longrightarrow>
            capacity_ok N st' this \<and>
            member m_capacity this st' = member m_capacity other st"
    using copy_assign_partial[OF h] by blast
  have 8: "\<forall>other st'. capacity_ok N st other \<and> move_assign this other st = Inr st' \<longrightarrow>
            capacity_ok N st' this \<and>
            member m_capacity this st' = member m_capacity other st"
    using move_assign_partial[OF h] by blast
  have 9: "\<forall>a st'. SmallVector_default N a st = Inr st' \<longrightarrow> capacity_ok N st' a"
    using SmallVector_default_partial by blast
  have 10: "\<forall>a d count st'. SmallVector_sized N d count a st = Inr st' \<longrightarrow>
            capacity_ok N st' a"
    using SmallVector_sized_partial[OF ok] by blast
  have 11: "\<forall>a vals st'. SmallVector_init N vals a st = Inr st' \<longrightarrow> capacity_ok N st' a"
    using SmallVector_init_partial[OF ok] by blast
  have 12: "\<forall>a st'. a \<noteq> this \<and> SmallVector_copy N a this st = Inr st' \<longrightarrow>
            capacity_ok N st' a"
    using SmallVector_copy_partial[OF h] by blast
  have 13: "\<forall>a st'. a \<noteq> this \<and> SmallVector_move N a this st = Inr st' \<longrightarrow>
            capacity_ok N st' a"
    using SmallVector_move_partial[OF h] by blast
  from 1 2 3 4 5 6 7 8 9 10 11 12 13 show ?thesis by (intro conjI)
qed


text \<open>
  The capacity does decrease across an assignment: a container that has grown to capacity 8
  by five appends has capacity 4 after \<open>a = b\<close> and after \<open>a = std::move(b)\<close> with \<open>b\<close> empty
  and inline, so "capacity never decreases across assignment" fails.
\<close>

theorem capacity_invariant_counterexample:
  "ebind (ebind (ebind (SmallVector_default 4 0 (st_empty :: nat state))
      (foreach [10, 20, 30, 40, 50] (append_value 0))) (SmallVector_default 4 1))
     (\<lambda>s. ebind (copy_assign 0 1 s) (\<lambda>s'.
        Inr (member m_capacity 0 s, member m_capacity 0 s'))) = Inr (Inr 8, Inr 4) \<and>
   ebind (ebind (ebind (SmallVector_default 4 0 (st_empty :: nat state))
      (foreach [10, 20, 30, 40, 50] (append_value 0))) (SmallVector_default 4 1))
     (\<lambda>s. ebind (move_assign 0 1 s) (\<lambda>s'.
        Inr (member m_capacity 0 s, member m_capacity 0 s'))) = Inr (Inr 8, Inr 4)"
  by (simp add: sv_eval)


text \<open>
  A five-element heap-mode container next to a two-element inline one, under an allocator
  that grants every request: each operation of the theorem completes there, with the stated
  capacities.
\<close>

theorem capacity_invariant_witness:
  "\<exists>S. ebind (ebind (SmallVector_default 4 0 (st_empty :: nat state))
              (foreach [10, 20, 30, 40, 50] (append_value 0)))
            (SmallVector_init 4 [1, 2] 1) = Inr S \<and>
       holds 4 S 0 [10, 20, 30, 40, 50] \<and> (\<forall>k. \<not> refuse S k) \<and> capacity_ok 4 S 1 \<and>
       (\<exists>s. reserve 0 20 S = Inr s \<and> capacity_kept 0 S s \<and> capacity_ok 4 s 0) \<and>
       (\<exists>s. append_value 0 60 S = Inr s \<and> capacity_kept 0 S s \<and> capacity_ok 4 s 0) \<and>
       (\<exists>s. extend_sv 0 1 S = Inr s \<and> capacity_kept 0 S s \<and> capacity_ok 4 s 0) \<and>
       (\<exists>s. remove_last 0 S = Inr s \<and> capacity_kept 0 S s \<and> capacity_ok 4 s 0) \<and>
       (\<exists>s. remove_and_reorder 0 1 S = Inr s \<and> capacity_kept 0 S s \<and> capacity_ok 4 s 0) \<and>
       (\<exists>s. fill 0 7 S = Inr s \<and> capacity_kept 0 S s \<and> capacity_ok 4 s 0) \<and>
       (\<exists>s. copy_assign 0 1 S = Inr s \<and> capacity_ok 4 s 0 \<and> member m_capacity 0 s = member m_capacity 1 S) \<and>
       (\<exists>s. move_assign 0 1 S = Inr s \<and> capacity_ok 4 s 0 \<and> member m_capacity 0 s = member m_capacity 1 S) \<and>
       (\<exists>s. SmallVector_default 4 2 S = Inr s \<and> capacity_ok 4 s 2) \<and>
       (\<exists>s. SmallVector_sized 4 9 6 2 S = Inr s \<and> capacity_ok 4 s 2) \<and>
       (\<exists>s. SmallVector_init 4 [3, 4, 5] 2 S = Inr s \<and> capacity_ok 4 s 2) \<and>
       (\<exists>s. SmallVector_copy 4 2 0 S = Inr s \<and> capacity_ok 4 s 2) \<and>
       (\<exists>s. SmallVector_move 4 2 0 S = Inr s \<and> capacity_ok 4 s 2)"
proof -
  have "\<exists>S. ebind (ebind (SmallVector_default 4 0 (st_empty :: nat state))
              (foreach [10, 20, 30, 40, 50] (append_value 0)))
            (SmallVector_init 4 [1, 2] 1) = Inr S \<and>
       holds 4 S 0 [10, 20, 30, 40, 50] \<and> (\<forall>k. \<not> refuse S k) \<and> capacity_ok 4 S 1 \<and>
       (\<exists>s. reserve 0 20 S = Inr s) \<and>
       (\<exists>s. append_value 0 60 S = Inr s) \<and>
       (\<exists>s. extend_sv 0 1 S = Inr s) \<and>
       (\<exists>s. remove_last 0 S = Inr s) \<and>
       (\<exists>s. remove_and_reorder 0 1 S = Inr s) \<and>
       (\<exists>s. fill 0 7 S = Inr s) \<and>
       (\<exists>s. copy_assign 0 1 S = Inr s) \<and>
       (\<exists>s. move_assign 0 1 S = Inr s) \<and>
       (\<exists>s. SmallVector_default 4 2 S = Inr s) \<and>
       (\<exists>s. SmallVector_sized 4 9 6 2 S = Inr s) \<and>
       (\<exists>s. SmallVector_init 4 [3, 4, 5] 2 S = Inr s) \<and>
       (\<exists>s. SmallVector_copy 4 2 0 S = Inr s) \<and>
       (\<exists>s. SmallVector_move 4 2 0 S = Inr s)"
    by (simp add: sv_eval holds_def capacity_ok_def)
  then obtain S where
    r: "ebind (ebind (SmallVector_default 4 0 (st_empty :: nat state))
              (foreach [10, 20, 30, 40, 50] (append_value 0)))
            (SmallVector_init 4 [1, 2] 1) = Inr S"
    and h: "holds 4 S 0 [10, 20, 30, 40, 50]" and ok: "\<forall>k. \<not> refuse S k"
    and c: "capacity_ok 4 S 1"
    and e1: "\<exists>s. reserve 0 20 S = Inr s"
    and e2: "\<exists>s. append_value 0 60 S = Inr s"
    and e3: "\<exists>s. extend_sv 0 1 S = Inr s"
    and e4: "\<exists>s. remove_last 0 S = Inr s"
    and e5: "\<exists>s. remove_and_reorder 0 1 S = Inr s"
    and e6: "\<exists>s. fill 0 7 S = Inr s"
    and e7: "\<exists>s. copy_assign 0 1 S = Inr s"
    and e8: "\<exists>s. move_assign 0 1 S = Inr s"
    and e9: "\<exists>s. SmallVector_default 4 2 S = Inr s"
    and e10: "\<exists>s. SmallVector_sized 4 9 6 2 S = Inr s"
    and e11: "\<exists>s. SmallVector_init 4 [3, 4, 5] 2 S = Inr s"
    and e12: "\<exists>s. SmallVector_copy 4 2 0 S = Inr s"
    and e13: "\<exists>s. SmallVector_move 4 2 0 S = Inr s"
    by (elim exE conjE) (rule that; (assumption | (rule exI, assumption)))
  have ne: "(2 :: nat) \<noteq> 0" by simp
  note t = capacity_invariant[OF h ok]
  have f1: "\<exists>s. reserve 0 20 S = Inr s \<and> capacity_kept 0 S s \<and> capacity_ok 4 s 0"
  proof -
    from e1 obtain s where e: "reserve 0 20 S = Inr s" ..
    note p = t[THEN conjunct1, rule_format, OF e]
    show ?thesis by (intro exI[of _ s] conjI e p[THEN conjunct1] p[THEN conjunct2])
  qed
  have f2: "\<exists>s. append_value 0 60 S = Inr s \<and> capacity_kept 0 S s \<and> capacity_ok 4 s 0"
  proof -
    from e2 obtain s where e: "append_value 0 60 S = Inr s" ..
    note p = t[THEN conjunct2, THEN conjunct1, rule_format, OF e]
    show ?thesis by (intro exI[of _ s] conjI e p[THEN conjunct1] p[THEN conjunct2])
  qed
  have f3: "\<exists>s. extend_sv 0 1 S = Inr s \<and> capacity_kept 0 S s \<and> capacity_ok 4 s 0"
  proof -
    from e3 obtain s where e: "extend_sv 0 1 S = Inr s" ..
    note p = t[THEN conjunct2, THEN conjunct2, THEN conjunct1, rule_format, OF e]
    show ?thesis by (intro exI[of _ s] conjI e p[THEN conjunct1] p[THEN conjunct2])
  qed
  have f4: "\<exists>s. remove_last 0 S = Inr s \<and> capacity_kept 0 S s \<and> capacity_ok 4 s 0"
  proof -
    from e4 obtain s where e: "remove_last 0 S = Inr s" ..
    note p = t[THEN conjunct2, THEN conjunct2, THEN conjunct2, THEN conjunct1, rule_format, OF e]
    show ?thesis by (intro exI[of _ s] conjI e p[THEN conjunct1] p[THEN conjunct2])
  qed
  have f5: "\<exists>s. remove_and_reorder 0 1 S = Inr s \<and> capacity_kept 0 S s \<and> capacity_ok 4 s 0"
  proof -
    from e5 obtain s where e: "remove_and_reorder 0 1 S = Inr s" ..
    note p = t[THEN conjunct2, THEN conjunct2, THEN conjunct2, THEN conjunct2, THEN conjunct1, rule_format, OF e]
    show ?thesis by (intro exI[of _ s] conjI e p[THEN conjunct1] p[THEN conjunct2])
  qed
  have f6: "\<exists>s. fill 0 7 S = Inr s \<and> capacity_kept 0 S s \<and> capacity_ok 4 s 0"
  proof -
    from e6 obtain s where e: "fill 0 7 S = Inr s" ..
    note p = t[THEN conjunct2, THEN conjunct2, THEN conjunct2, THEN conjunct2, THEN conjunct2, THEN conjunct1, rule_format, OF e]
    show ?thesis by (intro exI[of _ s] conjI e p[THEN conjunct1] p[THEN conjunct2])
  qed
  have f7: "\<exists>s. copy_assign 0 1 S = Inr s \<and> capacity_ok 4 s 0 \<and> member m_capacity 0 s = member m_capacity 1 S"
  proof -
    from e7 obtain s where e: "copy_assign 0 1 S = Inr s" ..
    note p = t[THEN conjunct2, THEN conjunct2, THEN conjunct2, THEN conjunct2, THEN conjunct2, THEN conjunct2, THEN conjunct1, rule_format, OF conjI[OF c e]]
    show ?thesis by (intro exI[of _ s] conjI e p[THEN conjunct1] p[THEN conjunct2])
  qed
  have f8: "\<exists>s. move_assign 0 1 S = Inr s \<and> capacity_ok 4 s 0 \<and> member m_capacity 0 s = member m_capacity 1 S"
  proof -
    from e8 obtain s where e: "move_assign 0 1 S = Inr s" ..
    note p = t[THEN conjunct2, THEN conjunct2, THEN conjunct2, THEN conjunct2, THEN conjunct2, THEN conjunct2, THEN conjunct2, THEN conjunct1, rule_format, OF conjI[OF c e]]
    show ?thesis by (intro exI[of _ s] conjI e p[THEN conjunct1] p[THEN conjunct2])
  qed
  have f9: "\<exists>s. SmallVector_default 4 2 S = Inr s \<and> capacity_ok 4 s 2"
  proof -
    from e9 obtain s where e: "SmallVector_default 4 2 S = Inr s" ..
    note p = t[THEN conjunct2, THEN conjunct2, THEN conjunct2, THEN conjunct2, THEN conjunct2, THEN conjunct2, THEN conjunct2, THEN conjunct2, THEN conjunct1, rule_format, OF e]
    show ?thesis by (intro exI[of _ s] conjI e p)
  qed
  have f10: "\<exists>s. SmallVector_sized 4 9 6 2 S = Inr s \<and> capacity_ok 4 s 2"
  proof -
    from e10 obtain s where e: "SmallVector_sized 4 9 6 2 S = Inr s" ..
    note p = t[THEN conjunct2, THEN conjunct2, THEN conjunct2, THEN conjunct2, THEN conjunct2, THEN conjunct2, THEN conjunct2, THEN conjunct2, THEN conjunct2, THEN conjunct1, rule_format, OF e]
    show ?thesis by (intro exI[of _ s] conjI e p)
  qed
  have f11: "\<exists>s. SmallVector_init 4 [3, 4, 5] 2 S = Inr s \<and> capacity_ok 4 s 2"
  proof -
    from e11 obtain s where e: "SmallVector_init 4 [3, 4, 5] 2 S = Inr s" ..
    note p = t[THEN conjunct2, THEN conjunct2, THEN conjunct2, THEN conjunct2, THEN conjunct2, THEN conjunct2, THEN conjunct2, THEN conjunct2, THEN conjunct2, THEN conjunct2, THEN conjunct1, rule_format, OF e]
    show ?thesis by (intro exI[of _ s] conjI e p)
  qed
  have f12: "\<exists>s. SmallVector_copy 4 2 0 S = Inr s \<and> capacity_ok 4 s 2"
  proof -
    from e12 obtain s where e: "SmallVector_copy 4 2 0 S = Inr s" ..
    note p = t[THEN conjunct2, THEN conjunct2, THEN conjunct2, THEN conjunct2, THEN conjunct2, THEN conjunct2, THEN conjunct2, THEN conjunct2, THEN conjunct2, THEN conjunct2, THEN conjunct2, THEN conjunct1, rule_format, OF conjI[OF ne e]]
    show ?thesis by (intro exI[of _ s] conjI e p)
  qed
  have f13: "\<exists>s. SmallVector_move 4 2 0 S = Inr s \<and> capacity_ok 4 s 2"
  proof -
    from e13 obtain s where e: "SmallVector_move 4 2 0 S = Inr s" ..
    note p = t[THEN conjunct2, THEN conjunct2, THEN conjunct2, THEN conjunct2, THEN conjunct2, THEN conjunct2, THEN conjunct2, THEN conjunct2, THEN conjunct2, THEN conjunct2, THEN conjunct2, THEN conjunct2, rule_format, OF conjI[OF ne e]]
    show ?thesis by (intro exI[of _ s] conjI e p)
  qed
  show ?thesis
    by (intro exI[of _ S] conjI r h ok c f1 f2 f3 f4 f5 f6 f7 f8 f9 f10 f11 f12 f13)
qed

end
